theory Spec2Isabelle
  imports Main "HOL-Library.Word"
begin

unbundle bit_operations_syntax

section \<open>Bytes, byte arrays and a store of byte arrays\<close>

text \<open>
  A Go \<^verbatim>\<open>[]byte\<close> that is only read is a list of bytes. Where the program hands a
  slice to somebody else the identity of the backing array matters, so byte arrays
  that are allocated while the program runs live in a store: an address is the
  number of the allocation, \<open>cells\<close> gives the contents of every array and
  \<open>next_addr\<close> is the first address that has not been handed out yet.
\<close>

type_synonym byte = "8 word"
type_synonym bytes = "byte list"
type_synonym addr = nat

record heap =
  cells :: "addr \<Rightarrow> bytes"
  next_addr :: addr

definition empty_heap :: heap where
  "empty_heap = \<lparr>cells = (\<lambda>_. []), next_addr = 0\<rparr>"

text \<open>\<^verbatim>\<open>make([]byte, n)\<close> and every other allocation: a fresh array with the given contents.\<close>

definition alloc :: "heap \<Rightarrow> bytes \<Rightarrow> addr \<times> heap" where
  "alloc h bs = (next_addr h, h\<lparr>cells := (cells h)(next_addr h := bs), next_addr := Suc (next_addr h)\<rparr>)"

definition store :: "heap \<Rightarrow> addr \<Rightarrow> bytes \<Rightarrow> heap" where
  "store h a bs = h\<lparr>cells := (cells h)(a := bs)\<rparr>"

text \<open>
  Go's builtin \<^verbatim>\<open>copy(dst[lo:hi], src)\<close>: it copies \<open>min (hi - lo) (length src)\<close> bytes
  and leaves the rest of \<open>dst\<close> as it was.
\<close>

definition copy_into :: "bytes \<Rightarrow> nat \<Rightarrow> nat \<Rightarrow> bytes \<Rightarrow> bytes" where
  "copy_into dst lo hi src =
     (let n = min (hi - lo) (length src) in take lo dst @ take n src @ drop (lo + n) dst)"

section \<open>The message codec (src/unnamed/part\_001)\<close>

definition HDHomeRunDiscoveryUDPPort :: nat where
  "HDHomeRunDiscoveryUDPPort = 65001"

definition TCPPort :: nat where
  "TCPPort = HDHomeRunDiscoveryUDPPort"

definition UDPReadBufferSize :: nat where
  "UDPReadBufferSize = 4096"

text \<open>
  \<^verbatim>\<open>type MessageCodec struct\<close>. The \<^verbatim>\<open>bytes.Buffer\<close> owns a backing array: \<open>msgBuffer\<close>
  is its address, the unread contents of the buffer are the contents of that cell.
  The two counters are Go \<^verbatim>\<open>int\<close>s. They are modelled as mathematical integers:
  every codec starts as \<open>NewMessageCodec\<close> makes it, and from there the counters stay
  within \<open>0..2\<close> and \<open>0..65535\<close> (lemma \<open>Decode_loop_codec_inv\<close> below), far from the
  64-bit range.
\<close>

record MessageCodec =
  msgBuffer :: addr
  lengthBytesRemaining :: int
  msgBytesRemaining :: int

definition NewMessageCodec :: "heap \<Rightarrow> MessageCodec \<times> heap" where
  "NewMessageCodec h =
     (let (b, h') = alloc h []
      in (\<lparr>msgBuffer = b, lengthBytesRemaining = 2, msgBytesRemaining = 0\<rparr>, h'))"

text \<open>\<^verbatim>\<open>binary.BigEndian\<close>: the most significant byte first.\<close>

definition put_uint16 :: "16 word \<Rightarrow> bytes" where
  "put_uint16 v = [ucast (drop_bit 8 v), ucast v]"

definition get_uint16 :: "byte \<Rightarrow> byte \<Rightarrow> 16 word" where
  "get_uint16 b0 b1 = ucast b1 OR push_bit 8 (ucast b0)"

text \<open>
  \<^verbatim>\<open>Encode\<close>: \<^verbatim>\<open>uint16(len(data))\<close> keeps the low 16 bits of the length, then the
  data follows. The result is a new buffer's contents; the function has no error result.
\<close>

definition Encode :: "bytes \<Rightarrow> bytes" where
  "Encode data = put_uint16 (of_nat (length data)) @ data"

text \<open>
  The inner loop of \<^verbatim>\<open>Decode\<close>, \<^verbatim>\<open>for mc.lengthBytesRemaining > 0\<close>, over the bytes of
  the chunk that are still unread (\<^verbatim>\<open>data[i:]\<close>). The result is the codec, the bytes
  left and whether the loop left \<^verbatim>\<open>Decode\<close> through its \<^verbatim>\<open>return\<close> (the length is
  still incomplete and the chunk is used up).
\<close>

fun read_length :: "MessageCodec \<Rightarrow> bytes \<Rightarrow> MessageCodec \<times> bytes \<times> bool" where
  "read_length mc [] = (mc, [], lengthBytesRemaining mc > 0)"
| "read_length mc (b # bs) =
     (if lengthBytesRemaining mc > 0 then
        let n = lengthBytesRemaining mc - 1
        in read_length
             (mc\<lparr>lengthBytesRemaining := n,
                 msgBytesRemaining := msgBytesRemaining mc OR push_bit (nat (n * 8)) (uint b)\<rparr>) bs
      else (mc, b # bs, False))"

text \<open>\<^verbatim>\<open>mc.msgBuffer.Write(p)\<close> appends a copy of \<open>p\<close> to the buffer.\<close>

definition buffer_write :: "heap \<Rightarrow> MessageCodec \<Rightarrow> bytes \<Rightarrow> heap" where
  "buffer_write h mc p = store h (msgBuffer mc) (cells h (msgBuffer mc) @ p)"

text \<open>
  The end of the outer loop's body, "We have a complete message": \<open>message\<close> is the
  buffer's own array, \<open>msgCopy\<close> a new array of the same length that \<^verbatim>\<open>copy\<close> fills;
  then the buffer is reset and the counters go back to 2 and 0. The address of
  \<open>msgCopy\<close> is what the callback is called with.
\<close>

definition complete_message :: "heap \<Rightarrow> MessageCodec \<Rightarrow> heap \<times> MessageCodec \<times> addr" where
  "complete_message h mc =
     (let message = msgBuffer mc;
          (msgCopy, h1) = alloc h (replicate (length (cells h message)) 0);
          h2 = store h1 msgCopy
                 (copy_into (cells h1 msgCopy) 0 (length (cells h1 msgCopy)) (cells h1 message));
          h3 = store h2 (msgBuffer mc) [];
          mc' = mc\<lparr>lengthBytesRemaining := 2, msgBytesRemaining := 0\<rparr>
      in (h3, mc', msgCopy))"

lemma read_length_length: "read_length mc data = (mc', rest, r) \<Longrightarrow> length rest \<le> length data"
  by (induction mc data rule: read_length.induct) (auto split: if_splits simp: Let_def)

lemma read_length_consumes:
  "read_length mc data = (mc', rest, False) \<Longrightarrow> lengthBytesRemaining mc > 0
     \<Longrightarrow> length rest < length data"
proof (induction mc data rule: read_length.induct)
  case (1 mc)
  then show ?case by simp
next
  case (2 mc b bs)
  from 2(2,3) have "length rest \<le> length bs"
    by (auto simp: Let_def dest: read_length_length)
  then show ?case by simp
qed

lemma complete_message_lbr:
  "complete_message h mc = (h', mc', a) \<Longrightarrow> lengthBytesRemaining mc' = 2"
  by (auto simp: complete_message_def Let_def alloc_def split: prod.splits)

text \<open>
  The outer loop of \<^verbatim>\<open>Decode\<close>, \<^verbatim>\<open>for { ... }\<close>, over the unread bytes of the chunk.
  The result is the store, the codec and the arguments of the callback's calls, in
  the order of the calls.
\<close>

function Decode_loop :: "heap \<Rightarrow> MessageCodec \<Rightarrow> bytes \<Rightarrow> heap \<times> MessageCodec \<times> addr list" where
  "Decode_loop h mc data =
     (case read_length mc data of
        (mc1, rest, True) \<Rightarrow> (h, mc1, [])
      | (mc1, rest, False) \<Rightarrow>
          if msgBytesRemaining mc1 > 0 then
            if length rest = 0 then (h, mc1, [])
            else
              let readLen = min (int (length rest)) (msgBytesRemaining mc1);
                  h2 = buffer_write h mc1 (take (nat readLen) rest);
                  mc2 = mc1\<lparr>msgBytesRemaining := msgBytesRemaining mc1 - readLen\<rparr>;
                  rest2 = drop (nat readLen) rest
              in if msgBytesRemaining mc2 > 0 then (h2, mc2, [])
                 else
                   let (h3, mc3, msgCopy) = complete_message h2 mc2;
                       (h4, mc4, calls) = Decode_loop h3 mc3 rest2
                   in (h4, mc4, msgCopy # calls)
          else
            let (h3, mc3, msgCopy) = complete_message h mc1;
                (h4, mc4, calls) = Decode_loop h3 mc3 rest
            in (h4, mc4, msgCopy # calls))"
  by pat_completeness auto
termination
proof (relation "measure (\<lambda>(h, mc, data). 2 * length data + (if lengthBytesRemaining mc > 0 then 0 else 1))",
       goal_cases)
  case 1
  show ?case by simp
next
  case 2
  then show ?case
    by (auto dest!: read_length_length[OF sym] complete_message_lbr[OF sym])
next
  case 3
  then show ?case
    by (auto dest: read_length_length[OF sym] read_length_consumes[OF sym] dest!: complete_message_lbr[OF sym])
qed

declare Decode_loop.simps [simp del]

text \<open>
  \<^verbatim>\<open>Decode(data, callback)\<close>: \<open>data\<close> is the address of the chunk. \<^verbatim>\<open>Decode\<close> only reads
  the chunk and writes to the buffer's array and to new arrays, so the chunk is
  read once, on entry.
\<close>

definition Decode :: "heap \<Rightarrow> MessageCodec \<Rightarrow> addr \<Rightarrow> heap \<times> MessageCodec \<times> addr list" where
  "Decode h mc data = Decode_loop h mc (cells h data)"

text \<open>Feeding the chunks at the given addresses to \<^verbatim>\<open>Decode\<close>, one call after the other.\<close>

fun Decode_chunks :: "heap \<Rightarrow> MessageCodec \<Rightarrow> addr list \<Rightarrow> heap \<times> MessageCodec \<times> addr list" where
  "Decode_chunks h mc [] = (h, mc, [])"
| "Decode_chunks h mc (c # cs) =
     (let (h1, mc1, calls1) = Decode h mc c;
          (h2, mc2, calls2) = Decode_chunks h1 mc1 cs
      in (h2, mc2, calls1 @ calls2))"

section \<open>What the relays do to the outside world\<close>

text \<open>
  The relays are goroutines that talk to sockets. A function of a relay is modelled
  as a function from the state it works on to the new state and the list of the
  things it did, in the order it did them. What the operating system answers is an
  input: a \<open>net_env\<close> says which calls fail and which datagrams arrive at which
  socket before its read deadline. Sockets and connections are numbered; every
  \<^verbatim>\<open>net.DialUDP\<close> and \<^verbatim>\<open>net.ListenUDP\<close> call takes the next number, so two sockets
  that are open at the same time never share one.

  A run of a relay is a sequence of steps of its goroutines, in the order in which
  they happen; a step runs without another goroutine in between. The shutdown
  signal (\<^verbatim>\<open>ctx.Done()\<close>) is not among the inputs: a run is a run of a relay that
  has not been asked to stop.
\<close>

type_synonym conn_id = nat
type_synonym sock_id = nat

text \<open>
  A Go \<^verbatim>\<open>error\<close>, as far as the relays look at it: whether its dynamic type is
  \<^verbatim>\<open>*net.OpError\<close> (then with the text of \<^verbatim>\<open>opErr.Err.Error()\<close>), and whether it is
  a \<^verbatim>\<open>net.Error\<close> whose \<^verbatim>\<open>Timeout()\<close> is true.
\<close>

datatype go_error = OpError string bool | PlainError string

fun is_timeout :: "go_error \<Rightarrow> bool" where
  "is_timeout (OpError inner t) = t"
| "is_timeout (PlainError s) = False"

text \<open>
  The text of a \<^verbatim>\<open>*net.DNSError\<close> whose \<^verbatim>\<open>Err\<close> is "no such host", as \<^verbatim>\<open>Error()\<close> of
  Go's package \<^verbatim>\<open>net\<close> builds it: "lookup NAME: no such host", or
  "lookup NAME on SERVER: no such host" when the server is known. This is the error
  that \<^verbatim>\<open>net.Dial\<close> wraps in a \<^verbatim>\<open>*net.OpError\<close> when the host name does not resolve.
\<close>

definition DNSError_text :: "string \<Rightarrow> string \<Rightarrow> string" where
  "DNSError_text name server =
     ''lookup '' @ name @ (if server = [] then [] else '' on '' @ server) @ '': no such host''"

datatype mutex = tcpMutex | udpMutex

datatype level = Debug | Info | Warn | Error

text \<open>
  What a relay does: taking and releasing a mutex, reading the connection slot
  (\<^verbatim>\<open>tcpTransport\<close>) and writing it, a log line, and the calls on sockets and
  connections. A write is listed whether it succeeds or fails.
\<close>

datatype event =
    Lock mutex
  | Unlock mutex
  | SlotRead
  | SlotWrite "conn_id option"
  | Log level string
  | UdpDial sock_id bytes nat
  | UdpListen sock_id
  | UdpWrite sock_id bytes
  | UdpRead sock_id "go_error + bytes"
  | UdpClose sock_id
  | TcpDial string
  | TcpWrite conn_id bytes
  | TcpClose conn_id
  | Exit nat

text \<open>
  The answers of the operating system. \<open>resolve_fails\<close>: \<^verbatim>\<open>net.ResolveUDPAddr\<close> fails
  for this address text. \<open>udp_dial_fails\<close>, \<open>udp_listen_fails\<close>: the call that would
  make the socket with this number fails. \<open>udp_write_fails\<close>: a write to this
  socket fails. \<open>arrivals\<close>: the datagrams that reach the local port of this socket
  before its read deadline, in order. \<open>read_ends_with\<close>: the error of the read that
  finds no datagram left (the timeout, or something else). \<open>tcp_write_fails\<close>: a
  write to this tunnel connection fails.
\<close>

record net_env =
  resolve_fails :: "string \<Rightarrow> bool"
  udp_dial_fails :: "sock_id \<Rightarrow> bool"
  udp_write_fails :: "sock_id \<Rightarrow> bool"
  udp_listen_fails :: "sock_id \<Rightarrow> bool"
  arrivals :: "sock_id \<Rightarrow> bytes list"
  read_ends_with :: "sock_id \<Rightarrow> go_error"
  tcp_write_fails :: "conn_id \<Rightarrow> bool"

text \<open>The network where no call fails and no datagram arrives: every wait ends in its timeout.\<close>

definition quiet_env :: net_env where
  "quiet_env =
     \<lparr>resolve_fails = (\<lambda>_. False), udp_dial_fails = (\<lambda>_. False), udp_write_fails = (\<lambda>_. False),
      udp_listen_fails = (\<lambda>_. False), arrivals = (\<lambda>_. []),
      read_ends_with = (\<lambda>_. OpError ''i/o timeout'' True), tcp_write_fails = (\<lambda>_. False)\<rparr>"

definition broadcast_addr :: bytes where
  "broadcast_addr = [255, 255, 255, 255]"

section \<open>Envelopes (src/app\_proxy.go, src/tuner\_proxy.go)\<close>

text \<open>
  Building an Envelope. \<^verbatim>\<open>reply\<close> and \<^verbatim>\<open>handleUDPBroadcasts\<close> do it with the same four
  statements: \<^verbatim>\<open>make([]byte, 6+n)\<close>, \<^verbatim>\<open>copy(m[0:4], addr)\<close>,
  \<^verbatim>\<open>binary.BigEndian.PutUint16(m[4:6], port)\<close>, \<^verbatim>\<open>copy(m[6:], payload)\<close>.
\<close>

definition packEnvelope :: "bytes \<Rightarrow> 16 word \<Rightarrow> bytes \<Rightarrow> bytes" where
  "packEnvelope sourceAddr sourcePort payload =
     (let m0 = replicate (6 + length payload) 0;
          m1 = copy_into m0 0 4 sourceAddr;
          m2 = copy_into m1 4 6 (put_uint16 sourcePort);
          m3 = copy_into m2 6 (length m2) payload
      in m3)"

text \<open>
  Taking an Envelope apart. \<^verbatim>\<open>onReceivedMessage\<close> and \<^verbatim>\<open>onMessageReceivedFromAppProxy\<close>
  do it with the same three statements, after their check of the length:
  \<^verbatim>\<open>msg[0:4]\<close>, \<^verbatim>\<open>binary.BigEndian.Uint16(msg[4:6])\<close>, \<^verbatim>\<open>msg[6:]\<close>.
\<close>

definition unpackEnvelope :: "bytes \<Rightarrow> bytes \<times> 16 word \<times> bytes" where
  "unpackEnvelope msg = (take 4 msg, get_uint16 (msg ! 4) (msg ! 5), drop 6 msg)"

text \<open>
  \<^verbatim>\<open>IP.To4()\<close> of Go's package \<^verbatim>\<open>net\<close>: a 4-byte address is itself, a 16-byte address
  that is an IPv4 address in IPv6 form gives its last four bytes, everything else
  gives \<^verbatim>\<open>nil\<close>, a slice of length 0.
\<close>

definition To4 :: "bytes \<Rightarrow> bytes" where
  "To4 ip =
     (if length ip = 4 then ip
      else if length ip = 16 \<and> take 10 ip = replicate 10 0 \<and> ip ! 10 = 255 \<and> ip ! 11 = 255
           then drop 12 ip
      else [])"

section \<open>The App-Side Relay in tunnel mode (src/app\_proxy.go)\<close>

text \<open>
  The state the goroutines of the relay share: the connection slot
  \<^verbatim>\<open>ap.tcpTransport\<close> (\<open>None\<close> is \<^verbatim>\<open>nil\<close>), the store, the running
  \<^verbatim>\<open>handleTunerProxyConnection\<close> goroutines (each with its connection, its codec and
  its read buffer) and the number of the next socket. The field \<^verbatim>\<open>codec\<close> of the
  struct is only used to call \<^verbatim>\<open>Encode\<close>, which reads nothing of the codec; the field
  \<^verbatim>\<open>directHDHRIP\<close> is empty in tunnel mode.
\<close>

record AppProxy =
  ap_tcpTransport :: "conn_id option"
  ap_heap :: heap
  ap_handlers :: "(conn_id \<times> MessageCodec \<times> addr) list"
  ap_next_sock :: sock_id

definition NewAppProxy :: AppProxy where
  "NewAppProxy = \<lparr>ap_tcpTransport = None, ap_heap = empty_heap, ap_handlers = [], ap_next_sock = 0\<rparr>"

text \<open>
  \<^verbatim>\<open>reply\<close>: \<^verbatim>\<open>ap.tcpMutex.Lock()\<close> is its first statement and the deferred
  \<^verbatim>\<open>Unlock()\<close> runs when it returns. With no connection held it returns at once.
  Otherwise it builds the Envelope, encodes it and writes it to the held connection;
  when the write fails it logs the error and sets the slot to \<^verbatim>\<open>nil\<close>.
\<close>

definition reply :: "net_env \<Rightarrow> bytes \<Rightarrow> 16 word \<Rightarrow> bytes \<Rightarrow> AppProxy \<Rightarrow> AppProxy \<times> event list" where
  "reply env sourceAddr sourcePort replyData ap =
     (case ap_tcpTransport ap of
        None \<Rightarrow> (ap, [Lock tcpMutex, SlotRead, Unlock tcpMutex])
      | Some c \<Rightarrow>
          let replyMsg = packEnvelope sourceAddr sourcePort replyData;
              encoded = Encode replyMsg
          in if tcp_write_fails env c
             then (ap\<lparr>ap_tcpTransport := None\<rparr>,
                   [Lock tcpMutex, SlotRead, TcpWrite c encoded, Log Error ''Error sending reply'',
                    SlotWrite None, Unlock tcpMutex])
             else (ap, [Lock tcpMutex, SlotRead, TcpWrite c encoded, Unlock tcpMutex]))"

text \<open>
  The loop at the end of \<^verbatim>\<open>queryTuner\<close>: \<^verbatim>\<open>listener.ReadFromUDP(buf)\<close> until it fails.
  The datagrams are those that arrive at the listener before its deadline; a
  datagram longer than the buffer is cut to the buffer's size; the callback is
  called for every datagram that is not empty.
\<close>

fun collect_replies ::
  "(bytes \<Rightarrow> 's \<Rightarrow> 's \<times> event list) \<Rightarrow> sock_id \<Rightarrow> bytes list \<Rightarrow> 's \<Rightarrow> 's \<times> event list" where
  "collect_replies callback listener [] s = (s, [])"
| "collect_replies callback listener (d # ds) s =
     (let n = min (length d) UDPReadBufferSize;
          (s1, ev1) = (if n > 0
                       then let (s', ev) = callback (take n d) s
                            in (s', Log Debug ''Reply received from tuner'' # ev)
                       else (s, []));
          (s2, ev2) = collect_replies callback listener ds s1
      in (s2, UdpRead listener (Inr (take n d)) # ev1 @ ev2))"

text \<open>
  \<^verbatim>\<open>queryTuner\<close>: the body of the goroutine it starts, run to its end. The query is
  written to \<open>conn\<close>, the socket that \<^verbatim>\<open>net.DialUDP\<close> made; the replies are read from
  \<open>listener\<close>, the socket that \<^verbatim>\<open>net.ListenUDP\<close> made on \<^verbatim>\<open>":0"\<close>. The deferred
  \<^verbatim>\<open>Close\<close> calls run when the body returns, the last one deferred first.
\<close>

definition queryTuner ::
  "net_env \<Rightarrow> bytes \<Rightarrow> (bytes \<Rightarrow> AppProxy \<Rightarrow> AppProxy \<times> event list) \<Rightarrow> AppProxy
     \<Rightarrow> AppProxy \<times> event list" where
  "queryTuner env queryData callback ap =
     (if resolve_fails env ''255.255.255.255:65001''
      then (ap, [Log Error ''Error resolving address''])
      else
        let conn = ap_next_sock ap;
            ap1 = ap\<lparr>ap_next_sock := Suc conn\<rparr>
        in if udp_dial_fails env conn
           then (ap1, [Log Error ''Error creating UDP connection''])
           else
             let opened = [UdpDial conn broadcast_addr HDHomeRunDiscoveryUDPPort,
                           UdpWrite conn queryData]
             in if udp_write_fails env conn
                then (ap1, opened @ [Log Error ''Error sending query'', UdpClose conn])
                else if resolve_fails env '':0''
                then (ap1, opened @ [Log Error ''Error resolving listen address'', UdpClose conn])
                else
                  let listener = ap_next_sock ap1;
                      ap2 = ap1\<lparr>ap_next_sock := Suc listener\<rparr>
                  in if udp_listen_fails env listener
                     then (ap2, opened @ [Log Error ''Error creating UDP listener'', UdpClose conn])
                     else
                       let (ap3, received) =
                             collect_replies callback listener (arrivals env listener) ap2;
                           err = read_ends_with env listener
                       in (ap3,
                           opened @ [UdpListen listener] @ received @
                           [UdpRead listener (Inl err)] @
                           (if is_timeout err then [] else [Log Error ''Error reading UDP response'']) @
                           [UdpClose listener, UdpClose conn]))"

text \<open>
  \<^verbatim>\<open>onReceivedMessage\<close>, with the goroutine that \<^verbatim>\<open>queryTuner\<close> starts run at once and
  to its end. The callback it passes is \<^verbatim>\<open>reply\<close> with the address and the port of
  the message.
\<close>

definition onReceivedMessage :: "net_env \<Rightarrow> bytes \<Rightarrow> AppProxy \<Rightarrow> AppProxy \<times> event list" where
  "onReceivedMessage env msg ap =
     (if length msg < 6 then (ap, [Log Warn ''Invalid message: too short''])
      else
        case unpackEnvelope msg of (sourceAddr, sourcePort, queryData) \<Rightarrow>
          queryTuner env queryData (\<lambda>replyData. reply env sourceAddr sourcePort replyData) ap)"

text \<open>Calling a handler for every decoded message, in order.\<close>

fun deliver_all :: "(bytes \<Rightarrow> 's \<Rightarrow> 's \<times> event list) \<Rightarrow> bytes list \<Rightarrow> 's \<Rightarrow> 's \<times> event list" where
  "deliver_all f [] s = (s, [])"
| "deliver_all f (m # ms) s =
     (let (s1, ev1) = f m s; (s2, ev2) = deliver_all f ms s1 in (s2, ev1 @ ev2))"

text \<open>
  \<^verbatim>\<open>handleTunerProxyConnection\<close>, up to its loop: the new connection goes into the
  slot, whatever the slot held; the goroutine gets a codec and a read buffer of its own.
\<close>

definition handleTunerProxyConnection_start :: "conn_id \<Rightarrow> AppProxy \<Rightarrow> AppProxy \<times> event list" where
  "handleTunerProxyConnection_start conn ap =
     (let (codec, h1) = NewMessageCodec (ap_heap ap);
          (buf, h2) = alloc h1 (replicate UDPReadBufferSize 0)
      in (ap\<lparr>ap_tcpTransport := Some conn, ap_heap := h2,
             ap_handlers := ap_handlers ap @ [(conn, codec, buf)]\<rparr>,
          [Log Info ''Tuner proxy connected'', Lock tcpMutex, SlotWrite (Some conn), Unlock tcpMutex]))"

text \<open>
  One turn of the loop of \<^verbatim>\<open>handleTunerProxyConnection\<close> for the connection \<open>conn\<close>:
  \<open>res\<close> is what \<^verbatim>\<open>conn.Read(buf)\<close> returned, an error or the bytes read (the cell of
  the buffer then holds \<^verbatim>\<open>buf[:n]\<close>). On an error the slot is set to \<^verbatim>\<open>nil\<close>, the
  goroutine ends and the deferred \<^verbatim>\<open>conn.Close()\<close> runs.
\<close>

definition handleTunerProxyConnection_read ::
  "net_env \<Rightarrow> conn_id \<Rightarrow> go_error + bytes \<Rightarrow> AppProxy \<Rightarrow> AppProxy \<times> event list" where
  "handleTunerProxyConnection_read env conn res ap =
     (case map_of (ap_handlers ap) conn of
        None \<Rightarrow> (ap, [])
      | Some (codec, buf) \<Rightarrow>
          (case res of
             Inl err \<Rightarrow>
               (ap\<lparr>ap_tcpTransport := None,
                   ap_handlers := filter (\<lambda>g. fst g \<noteq> conn) (ap_handlers ap)\<rparr>,
                [Log Info ''Tuner proxy disconnected'', Lock tcpMutex, SlotWrite None, Unlock tcpMutex,
                 TcpClose conn])
           | Inr data \<Rightarrow>
               if length data > 0 then
                 let h1 = store (ap_heap ap) buf data;
                     (h2, codec', calls) = Decode h1 codec buf;
                     ap1 = ap\<lparr>ap_heap := h2,
                              ap_handlers := map (\<lambda>g. if fst g = conn then (conn, codec', buf) else g)
                                               (ap_handlers ap)\<rparr>;
                     (ap2, evs) = deliver_all (onReceivedMessage env) (map (cells h2) calls) ap1
                 in (ap2, Log Debug ''Request received from tuner proxy'' # evs)
               else (ap, [])))"

text \<open>What happens to the relay: the accept loop gets a connection or an error, or a read returns.\<close>

datatype app_input = Accept conn_id | AcceptError | ConnRead conn_id "go_error + bytes"

fun app_step :: "net_env \<Rightarrow> app_input \<Rightarrow> AppProxy \<Rightarrow> AppProxy \<times> event list" where
  "app_step env (Accept conn) ap = handleTunerProxyConnection_start conn ap"
| "app_step env AcceptError ap = (ap, [Log Error ''Error accepting connection''])"
| "app_step env (ConnRead conn res) ap = handleTunerProxyConnection_read env conn res ap"

fun app_run :: "net_env \<Rightarrow> app_input list \<Rightarrow> AppProxy \<Rightarrow> AppProxy \<times> event list" where
  "app_run env [] ap = (ap, [])"
| "app_run env (i # is) ap =
     (let (ap1, ev1) = app_step env i ap; (ap2, ev2) = app_run env is ap1 in (ap2, ev1 @ ev2))"

section \<open>The Client-Side Relay in tunnel mode (src/tuner\_proxy.go)\<close>

text \<open>
  The state the goroutines of the relay share: the connection slot
  \<^verbatim>\<open>tp.tcpTransport\<close>, the capture socket \<^verbatim>\<open>tp.udpTransport\<close>, the store, the read
  goroutines that \<^verbatim>\<open>connectToAppProxy\<close> started (connection, codec, read buffer), the
  connections that were closed, the number of the next socket, and the exit status
  once \<^verbatim>\<open>os.Exit\<close> was called. As in the App-Side Relay the codecs that are only
  used to call \<^verbatim>\<open>Encode\<close> carry no state and are left out.
\<close>

record TunerProxy =
  tp_tcpTransport :: "conn_id option"
  tp_udpTransport :: "sock_id option"
  tp_heap :: heap
  tp_readers :: "(conn_id \<times> MessageCodec \<times> addr) list"
  tp_closed :: "conn_id list"
  tp_next_sock :: sock_id
  tp_exited :: "nat option"

text \<open>The relay after \<^verbatim>\<open>runTunerProxyMode\<close> has bound its capture socket (socket 0).\<close>

definition started_TunerProxy :: TunerProxy where
  "started_TunerProxy =
     \<lparr>tp_tcpTransport = None, tp_udpTransport = Some 0, tp_heap = empty_heap, tp_readers = [],
      tp_closed = [], tp_next_sock = 1, tp_exited = None\<rparr>"

definition getTCPTransport :: "TunerProxy \<Rightarrow> conn_id option \<times> event list" where
  "getTCPTransport tp = (tp_tcpTransport tp, [Lock tcpMutex, SlotRead, Unlock tcpMutex])"

definition setTCPTransport :: "conn_id \<Rightarrow> TunerProxy \<Rightarrow> TunerProxy \<times> event list" where
  "setTCPTransport conn tp =
     (tp\<lparr>tp_tcpTransport := Some conn\<rparr>, [Lock tcpMutex, SlotWrite (Some conn), Unlock tcpMutex])"

definition closeTCP :: "TunerProxy \<Rightarrow> TunerProxy \<times> event list" where
  "closeTCP tp =
     (case tp_tcpTransport tp of
        None \<Rightarrow> (tp, [Lock tcpMutex, SlotRead, Unlock tcpMutex])
      | Some c \<Rightarrow>
          (tp\<lparr>tp_tcpTransport := None, tp_closed := c # tp_closed tp\<rparr>,
           [Lock tcpMutex, SlotRead, TcpClose c, SlotWrite None, Unlock tcpMutex]))"

text \<open>
  \<^verbatim>\<open>connectToAppProxy\<close>: \<open>dial\<close> is what \<^verbatim>\<open>net.Dial\<close> returned. The third component
  of the result is the error the function returns (\<open>None\<close> is \<^verbatim>\<open>nil\<close>).
\<close>

definition connectToAppProxy ::
  "string \<Rightarrow> go_error + conn_id \<Rightarrow> TunerProxy \<Rightarrow> TunerProxy \<times> event list \<times> go_error option" where
  "connectToAppProxy appProxyHost dial tp =
     (case dial of
        Inl err \<Rightarrow> (tp, [TcpDial appProxyHost], Some err)
      | Inr conn \<Rightarrow>
          let (tp1, ev1) = setTCPTransport conn tp;
              (codec, h1) = NewMessageCodec (tp_heap tp1);
              (buf, h2) = alloc h1 (replicate UDPReadBufferSize 0)
          in (tp1\<lparr>tp_heap := h2, tp_readers := tp_readers tp1 @ [(conn, codec, buf)]\<rparr>,
              [TcpDial appProxyHost] @ ev1 @ [Log Info ''Connected to app proxy''], None))"

text \<open>
  The \<^verbatim>\<open>case <-ticker.C\<close> branch of the loop of \<^verbatim>\<open>runTunerProxyMode\<close>: one tick of the
  reconnect timer. The tick is taken as one step. Only this loop puts a connection
  into the slot, the other goroutines read the slot or clear it: whatever they do
  between the check of the slot and \<^verbatim>\<open>setTCPTransport\<close> finds the slot \<^verbatim>\<open>nil\<close>, as it
  would before the tick.
\<close>

definition ticker_tick :: "string \<Rightarrow> go_error + conn_id \<Rightarrow> TunerProxy \<Rightarrow> TunerProxy \<times> event list" where
  "ticker_tick appProxyHost dial tp =
     (case getTCPTransport tp of (t, ev0) \<Rightarrow>
        if t = None then
          (case connectToAppProxy appProxyHost dial tp of
             (tp1, ev1, None) \<Rightarrow> (tp1, ev0 @ [Log Info ''Connecting to app proxy''] @ ev1)
           | (tp1, ev1, Some err) \<Rightarrow>
               let evs = ev0 @ [Log Info ''Connecting to app proxy''] @ ev1 @
                         [Log Error ''Failed to connect to app proxy'']
               in (case err of
                     OpError inner t \<Rightarrow>
                       if inner = ''no such host''
                       then (tp1\<lparr>tp_exited := Some 1\<rparr>, evs @ [Log Error ''Unknown host'', Exit 1])
                       else (tp1, evs)
                   | PlainError s \<Rightarrow> (tp1, evs)))
        else (tp, ev0))"

text \<open>\<^verbatim>\<open>onMessageReceivedFromAppProxy\<close>: the payload goes to the origin through a new socket.\<close>

definition onMessageReceivedFromAppProxy :: "net_env \<Rightarrow> bytes \<Rightarrow> TunerProxy \<Rightarrow> TunerProxy \<times> event list" where
  "onMessageReceivedFromAppProxy env msg tp =
     (if length msg < 6 then (tp, [Log Warn ''Invalid message: too short''])
      else
        case unpackEnvelope msg of (sourceAddr, sourcePort, replyData) \<Rightarrow>
          let conn = tp_next_sock tp;
              tp1 = tp\<lparr>tp_next_sock := Suc conn\<rparr>
          in if udp_dial_fails env conn
             then (tp1, [Log Debug ''Replying to app'', Log Error ''Error sending reply''])
             else if udp_write_fails env conn
             then (tp1, [Log Debug ''Replying to app'', UdpDial conn sourceAddr (unat sourcePort),
                         UdpWrite conn replyData, Log Error ''Error sending reply'', UdpClose conn])
             else (tp1, [Log Debug ''Replying to app'', UdpDial conn sourceAddr (unat sourcePort),
                         UdpWrite conn replyData, UdpClose conn]))"

text \<open>
  One turn of the loop of the goroutine that \<^verbatim>\<open>connectToAppProxy\<close> starts for the
  connection \<open>conn\<close>: \<open>res\<close> is what \<^verbatim>\<open>conn.Read(buf)\<close> returned.
\<close>

definition tunnel_read ::
  "net_env \<Rightarrow> conn_id \<Rightarrow> go_error + bytes \<Rightarrow> TunerProxy \<Rightarrow> TunerProxy \<times> event list" where
  "tunnel_read env conn res tp =
     (case map_of (tp_readers tp) conn of
        None \<Rightarrow> (tp, [])
      | Some (codec, buf) \<Rightarrow>
          (case res of
             Inl err \<Rightarrow>
               let (tp1, ev1) = closeTCP tp
               in (tp1\<lparr>tp_readers := filter (\<lambda>g. fst g \<noteq> conn) (tp_readers tp1)\<rparr>,
                   Log Info ''Disconnected from app proxy'' # ev1)
           | Inr data \<Rightarrow>
               if length data > 0 then
                 let h1 = store (tp_heap tp) buf data;
                     (h2, codec', calls) = Decode h1 codec buf;
                     tp1 = tp\<lparr>tp_heap := h2,
                              tp_readers := map (\<lambda>g. if fst g = conn then (conn, codec', buf) else g)
                                              (tp_readers tp)\<rparr>;
                     (tp2, evs) = deliver_all (onMessageReceivedFromAppProxy env)
                                    (map (cells h2) calls) tp1
                 in (tp2, Log Debug ''Reply received from app proxy'' # evs)
               else (tp, [])))"

text \<open>
  The goroutine \<^verbatim>\<open>handleUDPBroadcasts\<close>. Its variables are its own: the buffer
  \<open>buf\<close>, and where it stands in the turn of its loop together with what it holds
  there (the sender and the length \<open>n\<close> of the datagram in \<^verbatim>\<open>buf[:n]\<close>; later the
  connection and the encoded message). The loop holds no lock between its
  statements, so the other goroutines can run between any two of them; the places
  where that matters are the places where the loop reads the slot, writes to the
  tunnel or closes the connection, and the turn is cut there:
  \<^item> \<open>Reading\<close>: in \<^verbatim>\<open>udpConn.ReadFromUDP(buf)\<close>;
  \<^item> \<open>Captured ip port n\<close>: the read has returned, next is the check
    \<^verbatim>\<open>if tp.getTCPTransport() == nil\<close>;
  \<^item> \<open>Checked ip port n\<close>: the check found a connection and \<open>n > 0\<close>, next the
    message is built and \<^verbatim>\<open>tcpConn := tp.getTCPTransport()\<close> reads the slot again;
  \<^item> \<open>Sending c encodedMsg\<close>: \<open>tcpConn\<close> is the connection \<open>c\<close>, next is
    \<^verbatim>\<open>tcpConn.Write(encodedMsg)\<close>;
  \<^item> \<open>WriteFailed\<close>: the write failed and is logged, next is \<^verbatim>\<open>tp.closeTCP()\<close>.
\<close>

datatype capture_pc =
    Reading
  | Captured bytes int nat
  | Checked bytes int nat
  | Sending conn_id bytes
  | WriteFailed

record capture_loop =
  cap_buf :: bytes
  cap_at :: capture_pc

definition started_capture_loop :: capture_loop where
  "started_capture_loop = \<lparr>cap_buf = replicate 4096 0, cap_at = Reading\<rparr>"

text \<open>
  \<^verbatim>\<open>udpConn.ReadFromUDP(buf)\<close> returns \<open>res\<close>: an error, or a datagram with the address
  and the port of its sender. The datagram is written over the start of the buffer
  (at most 4096 bytes of it). With no capture socket the goroutine has returned.
\<close>

definition handleUDPBroadcasts_read ::
  "go_error + (bytes \<times> int \<times> bytes) \<Rightarrow> TunerProxy \<Rightarrow> capture_loop \<Rightarrow> capture_loop \<times> event list" where
  "handleUDPBroadcasts_read res tp cl =
     (case tp_udpTransport tp of
        None \<Rightarrow> (cl, [Lock udpMutex, Unlock udpMutex])
      | Some udpConn \<Rightarrow>
          (case res of
             Inl err \<Rightarrow>
               (cl, [Lock udpMutex, Unlock udpMutex, UdpRead udpConn (Inl err),
                     Log Error ''Error reading UDP''])
           | Inr (ip, port, datagram) \<Rightarrow>
               let n = min (length datagram) 4096
               in (cl\<lparr>cap_buf := take n datagram @ drop n (cap_buf cl), cap_at := Captured ip port n\<rparr>,
                   [Lock udpMutex, Unlock udpMutex, UdpRead udpConn (Inr (take n datagram))])))"

text \<open>
  The next step of the turn, from where the goroutine stands. A write to a
  connection fails when the network says so or when the connection was closed.
\<close>

definition handleUDPBroadcasts_step ::
  "net_env \<Rightarrow> TunerProxy \<Rightarrow> capture_loop \<Rightarrow> (TunerProxy \<times> capture_loop) \<times> event list" where
  "handleUDPBroadcasts_step env tp cl =
     (case cap_at cl of
        Reading \<Rightarrow> ((tp, cl), [])
      | Captured ip port n \<Rightarrow>
          (case getTCPTransport tp of (t, ev) \<Rightarrow>
             if t = None then ((tp, cl\<lparr>cap_at := Reading\<rparr>), ev)
             else if n > 0 then ((tp, cl\<lparr>cap_at := Checked ip port n\<rparr>), ev)
             else ((tp, cl\<lparr>cap_at := Reading\<rparr>), ev))
      | Checked ip port n \<Rightarrow>
          let msgData = packEnvelope (To4 ip) (of_int port) (take n (cap_buf cl));
              encodedMsg = Encode msgData
          in (case getTCPTransport tp of (tcpConn, ev) \<Rightarrow>
                (case tcpConn of
                   None \<Rightarrow>
                     ((tp, cl\<lparr>cap_at := Reading\<rparr>), Log Debug ''Request received from app'' # ev)
                 | Some c \<Rightarrow>
                     ((tp, cl\<lparr>cap_at := Sending c encodedMsg\<rparr>),
                      Log Debug ''Request received from app'' # ev)))
      | Sending c encodedMsg \<Rightarrow>
          if tcp_write_fails env c \<or> c \<in> set (tp_closed tp)
          then ((tp, cl\<lparr>cap_at := WriteFailed\<rparr>),
                [TcpWrite c encodedMsg, Log Error ''Error sending to app proxy''])
          else ((tp, cl\<lparr>cap_at := Reading\<rparr>), [TcpWrite c encodedMsg])
      | WriteFailed \<Rightarrow>
          (case closeTCP tp of (tp1, ev) \<Rightarrow> ((tp1, cl\<lparr>cap_at := Reading\<rparr>), ev)))"

text \<open>
  What happens to the relay: the timer ticks (with what \<^verbatim>\<open>net.Dial\<close> would return), a
  read from the tunnel returns, the read from the capture socket returns (it can
  only return while \<^verbatim>\<open>handleUDPBroadcasts\<close> is reading), or \<^verbatim>\<open>handleUDPBroadcasts\<close>
  takes the next step of its turn. After \<^verbatim>\<open>os.Exit\<close> nothing happens any more.
\<close>

datatype tuner_input =
    Tick "go_error + conn_id"
  | TunnelRead conn_id "go_error + bytes"
  | CaptureRead "go_error + (bytes \<times> int \<times> bytes)"
  | CaptureStep

fun tuner_step ::
  "net_env \<Rightarrow> string \<Rightarrow> tuner_input \<Rightarrow> TunerProxy \<times> capture_loop
     \<Rightarrow> (TunerProxy \<times> capture_loop) \<times> event list" where
  "tuner_step env host (Tick dial) (tp, cl) =
     (case ticker_tick host dial tp of (tp1, ev) \<Rightarrow> ((tp1, cl), ev))"
| "tuner_step env host (TunnelRead conn res) (tp, cl) =
     (case tunnel_read env conn res tp of (tp1, ev) \<Rightarrow> ((tp1, cl), ev))"
| "tuner_step env host (CaptureRead res) (tp, cl) =
     (if cap_at cl = Reading
      then (case handleUDPBroadcasts_read res tp cl of (cl1, ev) \<Rightarrow> ((tp, cl1), ev))
      else ((tp, cl), []))"
| "tuner_step env host CaptureStep (tp, cl) = handleUDPBroadcasts_step env tp cl"

fun tuner_run ::
  "net_env \<Rightarrow> string \<Rightarrow> tuner_input list \<Rightarrow> TunerProxy \<times> capture_loop
     \<Rightarrow> (TunerProxy \<times> capture_loop) \<times> event list" where
  "tuner_run env host [] st = (st, [])"
| "tuner_run env host (i # is) st =
     (if tp_exited (fst st) \<noteq> None then (st, [])
      else let (st1, ev1) = tuner_step env host i st;
               (st2, ev2) = tuner_run env host is st1
           in (st2, ev1 @ ev2))"

section \<open>Reading a list of events\<close>

text \<open>The bytes written to tunnel connections, with the connection, in order.\<close>

fun tunnel_writes :: "event list \<Rightarrow> (conn_id \<times> bytes) list" where
  "tunnel_writes [] = []"
| "tunnel_writes (TcpWrite c bs # es) = (c, bs) # tunnel_writes es"
| "tunnel_writes (e # es) = tunnel_writes es"

text \<open>The sockets a list of events writes a datagram to, and those it reads from.\<close>

fun written_sockets :: "event list \<Rightarrow> sock_id list" where
  "written_sockets [] = []"
| "written_sockets (UdpWrite s bs # es) = s # written_sockets es"
| "written_sockets (e # es) = written_sockets es"

fun read_sockets :: "event list \<Rightarrow> sock_id list" where
  "read_sockets [] = []"
| "read_sockets (UdpRead s r # es) = s # read_sockets es"
| "read_sockets (e # es) = read_sockets es"

text \<open>
  Input and output that can block: connecting, writing to and reading from a
  socket. Closing a socket, logging and the mutex itself are not.
\<close>

fun blocking :: "event \<Rightarrow> bool" where
  "blocking (UdpWrite s bs) = True"
| "blocking (UdpRead s r) = True"
| "blocking (TcpDial h) = True"
| "blocking (TcpWrite c bs) = True"
| "blocking e = False"

text \<open>
  Two readings of a list of events \<open>evs\<close> that starts with \<^verbatim>\<open>tcpMutex\<close> held or
  not, as \<open>held\<close> says. \<open>slot_guarded held evs\<close>: the slot is read and written only
  while \<^verbatim>\<open>tcpMutex\<close> is held. \<open>lock_scoped held evs\<close>: nothing that can block happens
  while \<^verbatim>\<open>tcpMutex\<close> is held.
\<close>

fun slot_guarded :: "bool \<Rightarrow> event list \<Rightarrow> bool" where
  "slot_guarded held [] = True"
| "slot_guarded held (Lock tcpMutex # es) = slot_guarded True es"
| "slot_guarded held (Unlock tcpMutex # es) = slot_guarded False es"
| "slot_guarded held (SlotRead # es) = (if held then slot_guarded held es else False)"
| "slot_guarded held (SlotWrite v # es) = (if held then slot_guarded held es else False)"
| "slot_guarded held (e # es) = slot_guarded held es"

fun lock_scoped :: "bool \<Rightarrow> event list \<Rightarrow> bool" where
  "lock_scoped held [] = True"
| "lock_scoped held (Lock tcpMutex # es) = lock_scoped True es"
| "lock_scoped held (Unlock tcpMutex # es) = lock_scoped False es"
| "lock_scoped held (e # es) = (if held \<and> blocking e then False else lock_scoped held es)"

section \<open>A scenario\<close>

text \<open>
  The bytes of "QUERY" and "ANSWER", and the network in which one datagram \<open>d\<close>
  arrives at the socket \<open>s\<close> before its deadline and nothing else happens. A device
  that answers a query sends its answer to the address and port the query came
  from, that is to the socket that wrote the query.
\<close>

definition QUERY :: bytes where "QUERY = [81, 85, 69, 82, 89]"

definition ANSWER :: bytes where "ANSWER = [65, 78, 83, 87, 69, 82]"

definition answers_at :: "sock_id \<Rightarrow> bytes \<Rightarrow> net_env" where
  "answers_at s d = quiet_env\<lparr>arrivals := (\<lambda>s'. if s' = s then [d] else [])\<rparr>"

subsection \<open>Notions used in the proofs about the codec\<close>

text \<open>One step of the inner loop: a byte of the length is folded into the counter.\<close>

definition header_byte :: "MessageCodec \<Rightarrow> byte \<Rightarrow> MessageCodec" where
  "header_byte mc b =
     mc\<lparr>lengthBytesRemaining := lengthBytesRemaining mc - 1,
        msgBytesRemaining := msgBytesRemaining mc OR push_bit (nat ((lengthBytesRemaining mc - 1) * 8)) (uint b)\<rparr>"

text \<open>Running the loop on further bytes, after a run that gave \<open>r\<close>.\<close>

definition then_decode :: "heap \<times> MessageCodec \<times> addr list \<Rightarrow> bytes \<Rightarrow> heap \<times> MessageCodec \<times> addr list" where
  "then_decode r data = (case r of (h, mc, calls) \<Rightarrow>
     (case Decode_loop h mc data of (h', mc', calls') \<Rightarrow> (h', mc', calls @ calls')))"

text \<open>
  What a run of the loop leaves alone: the buffer stays where it is, no array is
  freed, every array that existed before and is not the buffer keeps its contents,
  and every argument of the callback is an array allocated during the run.
\<close>

definition frame :: "heap \<Rightarrow> MessageCodec \<Rightarrow> heap \<times> MessageCodec \<times> addr list \<Rightarrow> bool" where
  "frame h mc r = (case r of (h', mc', calls) \<Rightarrow>
      msgBuffer mc' = msgBuffer mc \<and> next_addr h \<le> next_addr h' \<and>
      (\<forall>a. a < next_addr h \<longrightarrow> a \<noteq> msgBuffer mc \<longrightarrow> cells h' a = cells h a) \<and>
      (\<forall>a \<in> set calls. next_addr h \<le> a \<and> a < next_addr h'))"

text \<open>The range of the two counters of a codec that started as \<open>NewMessageCodec\<close> makes it.\<close>

definition codec_inv :: "MessageCodec \<Rightarrow> bool" where
  "codec_inv mc \<longleftrightarrow> 0 \<le> lengthBytesRemaining mc \<and> lengthBytesRemaining mc \<le> 2 \<and>
     0 \<le> msgBytesRemaining mc \<and> msgBytesRemaining mc < 65536"

text \<open>
  Two states of the variables of \<^verbatim>\<open>handleUDPBroadcasts\<close> that the goroutine cannot
  tell apart: it stands at the same place, and the part of the buffer it still has
  to read, \<^verbatim>\<open>buf[:n]\<close> of the datagram it holds, is the same.
\<close>

definition pending_len :: "capture_loop \<Rightarrow> nat" where
  "pending_len cl =
     (case cap_at cl of Captured ip port n \<Rightarrow> n | Checked ip port n \<Rightarrow> n | _ \<Rightarrow> 0)"

definition same_capture :: "capture_loop \<Rightarrow> capture_loop \<Rightarrow> bool" where
  "same_capture cl cl' \<longleftrightarrow>
     cap_at cl = cap_at cl' \<and>
     take (pending_len cl) (cap_buf cl) = take (pending_len cl) (cap_buf cl')"

section \<open>The codec: proofs\<close>

lemma header_value:
  "push_bit 8 (uint (ucast (drop_bit 8 v) :: 8 word)) OR uint (ucast v :: 8 word) = uint (v :: 16 word)"
proof (rule bit_eqI)
  fix n
  have "bit v n \<Longrightarrow> n < 16"
    by (auto dest: bit_imp_le_length)
  then show "bit (push_bit 8 (uint (ucast (drop_bit 8 v) :: 8 word)) OR uint (ucast v :: 8 word)) n = bit (uint v) n"
    by (auto simp: bit_simps)
qed

lemma uint_len: "n \<le> 65535 \<Longrightarrow> uint (of_nat n :: 16 word) = int n"
  by (simp add: uint_nat unat_of_nat)

lemma read_length_done: "lengthBytesRemaining mc \<le> 0 \<Longrightarrow> read_length mc data = (mc, data, False)"
  by (cases data) auto

lemma read_length_header:
  "lengthBytesRemaining mc > 0 \<Longrightarrow> read_length mc (b # bs) = read_length (header_byte mc b) bs"
  by (simp add: header_byte_def Let_def)

lemma Decode_loop_header:
  "lengthBytesRemaining mc > 0 \<Longrightarrow> Decode_loop h mc (b # bs) = Decode_loop h (header_byte mc b) bs"
  unfolding Decode_loop.simps[of h mc "b # bs"] Decode_loop.simps[of h "header_byte mc b" bs]
  by (simp only: read_length_header)

lemma Decode_loop_wait:
  "lengthBytesRemaining mc > 0 \<or> msgBytesRemaining mc > 0 \<Longrightarrow> Decode_loop h mc [] = (h, mc, [])"
  by (auto simp add: Decode_loop.simps[of h mc "[]"] split: bool.splits)

lemma Decode_loop_complete:
  "lengthBytesRemaining mc \<le> 0 \<Longrightarrow> msgBytesRemaining mc \<le> 0 \<Longrightarrow>
   Decode_loop h mc data =
     (case complete_message h mc of (h3, mc3, msgCopy) \<Rightarrow>
        (case Decode_loop h3 mc3 data of (h4, mc4, calls) \<Rightarrow> (h4, mc4, msgCopy # calls)))"
  by (simp add: Decode_loop.simps[of h mc data] read_length_done split: prod.splits)

lemma Decode_loop_payload:
  "lengthBytesRemaining mc \<le> 0 \<Longrightarrow> msgBytesRemaining mc > 0 \<Longrightarrow> data \<noteq> [] \<Longrightarrow>
   Decode_loop h mc data =
     (let readLen = min (int (length data)) (msgBytesRemaining mc);
          h2 = buffer_write h mc (take (nat readLen) data);
          mc2 = mc\<lparr>msgBytesRemaining := msgBytesRemaining mc - readLen\<rparr>
      in if msgBytesRemaining mc2 > 0 then (h2, mc2, [])
         else (case complete_message h2 mc2 of (h3, mc3, msgCopy) \<Rightarrow>
                (case Decode_loop h3 mc3 (drop (nat readLen) data) of
                   (h4, mc4, calls) \<Rightarrow> (h4, mc4, msgCopy # calls))))"
  by (simp add: Decode_loop.simps[of h mc data] read_length_done Let_def split: prod.splits)

lemma complete_then_wait:
  "complete_message h mc = (h3, mc3, a) \<Longrightarrow> Decode_loop h3 mc3 [] = (h3, mc3, [])"
  by (rule Decode_loop_wait) (auto dest: complete_message_lbr)

lemma then_decode_nil: "then_decode (Decode_loop h mc []) bs = Decode_loop h mc bs"
proof (cases "lengthBytesRemaining mc > 0 \<or> msgBytesRemaining mc > 0")
  case True
  then show ?thesis by (simp add: Decode_loop_wait then_decode_def split: prod.splits)
next
  case False
  then have *: "lengthBytesRemaining mc \<le> 0" "msgBytesRemaining mc \<le> 0" by auto
  obtain h3 mc3 a where c: "complete_message h mc = (h3, mc3, a)"
    by (cases "complete_message h mc") auto
  show ?thesis
    by (simp add: Decode_loop_complete[OF *, of h] c complete_then_wait[OF c] then_decode_def
        split: prod.splits)
qed

lemma then_decode_header:
  assumes "lengthBytesRemaining mc > 0"
  shows "then_decode (Decode_loop h mc [b]) bs = Decode_loop h mc (b # bs)"
  using assms by (simp add: Decode_loop_header then_decode_nil)

lemma buffer_write_twice:
  "buffer_write (buffer_write h mc xs) mc' ys = buffer_write h mc (xs @ ys)" if "msgBuffer mc' = msgBuffer mc"
  using that by (simp add: buffer_write_def store_def)

lemma then_decode_payload:
  assumes "lengthBytesRemaining mc \<le> 0" "msgBytesRemaining mc > 0"
  shows "then_decode (Decode_loop h mc [b]) bs = Decode_loop h mc (b # bs)"
proof (cases "msgBytesRemaining mc > 1")
  case False
  with assms have m: "msgBytesRemaining mc = 1" by simp
  obtain h3 mc3 a where c: "complete_message (buffer_write h mc [b]) (mc\<lparr>msgBytesRemaining := 0\<rparr>) = (h3, mc3, a)"
    by (metis prod_cases3)
  show ?thesis
    using assms m c
    by (simp add: Decode_loop_payload[of mc "[b]"] Decode_loop_payload[of mc "b # bs"]
        complete_then_wait[OF c] then_decode_def split: prod.splits)
next
  case True
  let ?mc1 = "mc\<lparr>msgBytesRemaining := msgBytesRemaining mc - 1\<rparr>"
  have one: "Decode_loop h mc [b] = (buffer_write h mc [b], ?mc1, [])"
    using assms True by (simp add: Decode_loop_payload[of mc "[b]"])
  show ?thesis
  proof (cases bs)
    case Nil
    then show ?thesis
      using assms True one by (simp add: then_decode_def Decode_loop_wait)
  next
    case (Cons c cs)
    have min: "min (1 + int (length bs)) (msgBytesRemaining mc) = 1 + min (int (length bs)) (msgBytesRemaining mc - 1)"
      by (simp add: min_def)
    have nat: "nat (1 + min (int (length bs)) (msgBytesRemaining mc - 1)) = Suc (nat (min (int (length bs)) (msgBytesRemaining mc - 1)))"
      using True by (intro Suc_nat_eq_nat_zadd1[symmetric]) simp
    have nat': "nat (msgBytesRemaining mc) = Suc (nat (msgBytesRemaining mc - 1))"
      using True by linarith
    show ?thesis
      using assms True Cons
      apply (simp add: one then_decode_def)
      apply (subst Decode_loop_payload[of ?mc1]; simp?)
      apply (subst Decode_loop_payload[of mc "b # c # cs"]; simp?)
      apply (simp add: Let_def buffer_write_twice min nat nat' split: prod.splits)
      done
  qed
qed

lemma then_decode_cons: "then_decode (Decode_loop h mc [b]) bs = Decode_loop h mc (b # bs)"
proof (cases "lengthBytesRemaining mc > 0")
  case True
  then show ?thesis by (rule then_decode_header)
next
  case False
  then have l: "lengthBytesRemaining mc \<le> 0" by simp
  show ?thesis
  proof (cases "msgBytesRemaining mc > 0")
    case True
    with l show ?thesis by (rule then_decode_payload)
  next
    case False
    then have m: "msgBytesRemaining mc \<le> 0" by simp
    obtain h3 mc3 a where c: "complete_message h mc = (h3, mc3, a)"
      by (metis prod_cases3)
    then have "lengthBytesRemaining mc3 > 0" by (auto dest: complete_message_lbr)
    then have "Decode_loop h3 mc3 (b # bs) = then_decode (Decode_loop h3 mc3 [b]) bs"
      by (simp add: then_decode_header)
    then show ?thesis
      by (simp add: Decode_loop_complete[OF l m] c then_decode_def split: prod.splits)
  qed
qed

lemma Decode_loop_append: "Decode_loop h mc (xs @ ys) = then_decode (Decode_loop h mc xs) ys"
proof (induction xs arbitrary: h mc)
  case Nil
  show ?case by (simp add: then_decode_nil)
next
  case (Cons b xs)
  obtain h1 mc1 c1 where one: "Decode_loop h mc [b] = (h1, mc1, c1)"
    by (metis prod_cases3)
  have "Decode_loop h mc (b # xs @ ys) = then_decode (Decode_loop h mc [b]) (xs @ ys)"
    by (simp add: then_decode_cons)
  moreover have "Decode_loop h mc (b # xs) = then_decode (Decode_loop h mc [b]) xs"
    by (simp add: then_decode_cons)
  ultimately show ?case
    by (simp add: one Cons.IH then_decode_def split: prod.splits)
qed

lemma read_length_msgBuffer: "read_length mc data = (mc', rest, r) \<Longrightarrow> msgBuffer mc' = msgBuffer mc"
  by (induction mc data rule: read_length.induct) (auto split: if_splits simp: Let_def)

lemma complete_message_eq:
  "msgBuffer mc < next_addr h \<Longrightarrow>
   complete_message h mc =
     (\<lparr>cells = (cells h)(next_addr h := cells h (msgBuffer mc), msgBuffer mc := []),
       next_addr = Suc (next_addr h)\<rparr>,
      mc\<lparr>lengthBytesRemaining := 2, msgBytesRemaining := 0\<rparr>, next_addr h)"
  by (simp add: complete_message_def alloc_def store_def copy_into_def Let_def)

lemma Decode_loop_cases_induct [case_names wait header complete payload]:
  assumes wait: "\<And>h mc. lengthBytesRemaining mc > 0 \<or> msgBytesRemaining mc > 0 \<Longrightarrow> P h mc []"
    and header: "\<And>h mc b bs. lengthBytesRemaining mc > 0 \<Longrightarrow> P h (header_byte mc b) bs \<Longrightarrow> P h mc (b # bs)"
    and complete: "\<And>h mc data h3 mc3 a. lengthBytesRemaining mc \<le> 0 \<Longrightarrow> msgBytesRemaining mc \<le> 0 \<Longrightarrow>
        complete_message h mc = (h3, mc3, a) \<Longrightarrow> P h3 mc3 data \<Longrightarrow> P h mc data"
    and payload: "\<And>h mc data readLen h2 mc2. lengthBytesRemaining mc \<le> 0 \<Longrightarrow> msgBytesRemaining mc > 0 \<Longrightarrow>
        data \<noteq> [] \<Longrightarrow> readLen = min (int (length data)) (msgBytesRemaining mc) \<Longrightarrow>
        h2 = buffer_write h mc (take (nat readLen) data) \<Longrightarrow>
        mc2 = mc\<lparr>msgBytesRemaining := msgBytesRemaining mc - readLen\<rparr> \<Longrightarrow>
        (\<And>h3 mc3 a. \<not> msgBytesRemaining mc2 > 0 \<Longrightarrow> complete_message h2 mc2 = (h3, mc3, a) \<Longrightarrow>
            P h3 mc3 (drop (nat readLen) data)) \<Longrightarrow> P h mc data"
  shows "P h mc data"
proof (induction "2 * length data + (if lengthBytesRemaining mc > 0 then 0 else 1)"
        arbitrary: h mc data rule: less_induct)
  case less
  show ?case
  proof (cases "lengthBytesRemaining mc > 0")
    case True
    show ?thesis
    proof (cases data)
      case Nil
      with True show ?thesis by (simp add: wait)
    next
      case (Cons b bs)
      have "P h (header_byte mc b) bs"
        by (rule less) (simp add: Cons True)
      with True Cons show ?thesis by (simp add: header)
    qed
  next
    case False
    then have l: "lengthBytesRemaining mc \<le> 0" by simp
    show ?thesis
    proof (cases "msgBytesRemaining mc > 0")
      case False
      then have m: "msgBytesRemaining mc \<le> 0" by simp
      obtain h3 mc3 a where c: "complete_message h mc = (h3, mc3, a)"
        by (metis prod_cases3)
      have "P h3 mc3 data"
        by (rule less) (use l c in \<open>auto dest: complete_message_lbr\<close>)
      with l m c show ?thesis by (rule complete)
    next
      case True
      show ?thesis
      proof (cases data)
        case Nil
        with True show ?thesis by (simp add: wait)
      next
        case (Cons b bs)
        show ?thesis
        proof (rule payload[OF l True _ refl refl refl])
          show "data \<noteq> []" using Cons by simp
        next
          fix h3 mc3 a
          assume c: "complete_message
             (buffer_write h mc (take (nat (min (int (length data)) (msgBytesRemaining mc))) data))
             (mc\<lparr>msgBytesRemaining := msgBytesRemaining mc - min (int (length data)) (msgBytesRemaining mc)\<rparr>)
             = (h3, mc3, a)"
          show "P h3 mc3 (drop (nat (min (int (length data)) (msgBytesRemaining mc))) data)"
            by (rule less) (use l True Cons c in \<open>auto dest!: complete_message_lbr simp: min_def\<close>)
        qed
      qed
    qed
  qed
qed

lemma Decode_loop_frame:
  "msgBuffer mc < next_addr h \<Longrightarrow> frame h mc (Decode_loop h mc data)"
proof (induction h mc data rule: Decode_loop_cases_induct)
  case (wait h mc)
  then show ?case by (simp add: Decode_loop_wait frame_def)
next
  case (header h mc b bs)
  then show ?case by (simp add: Decode_loop_header[of mc h b bs] frame_def header_byte_def)
next
  case (complete h mc data h3 mc3 a)
  then show ?case
    by (fastforce simp: Decode_loop_complete[of mc h data] frame_def complete_message_eq
        split: prod.splits)
next
  case (payload h mc data readLen h2 mc2)
  show ?case
  proof (cases "msgBytesRemaining mc2 > 0")
    case True
    with payload(4,6) have "int (length data) < msgBytesRemaining mc"
      by (simp add: min_def split: if_splits)
    with payload(1-3,8) show ?thesis
      by (simp add: Decode_loop_payload[of mc data h] Let_def frame_def buffer_write_def store_def)
  next
    case False
    obtain h3 mc3 a where c: "complete_message h2 mc2 = (h3, mc3, a)"
      by (metis prod_cases3)
    have mb: "msgBuffer mc2 < next_addr h2"
      using payload by (simp add: buffer_write_def store_def)
    with c have "msgBuffer mc3 < next_addr h3"
      by (auto simp: complete_message_eq)
    with payload(7)[OF False c] have "frame h3 mc3 (Decode_loop h3 mc3 (drop (nat readLen) data))"
      by simp
    with payload(1-6,8) False c mb show ?thesis
      by (fastforce simp: Decode_loop_payload[of mc data h] Let_def frame_def complete_message_eq
          buffer_write_def store_def split: prod.splits)
  qed
qed

lemma header_byte_inv: "codec_inv mc \<Longrightarrow> lengthBytesRemaining mc > 0 \<Longrightarrow> codec_inv (header_byte mc b)"
proof -
  assume inv: "codec_inv mc" and pos: "lengthBytesRemaining mc > 0"
  then have n: "nat ((lengthBytesRemaining mc - 1) * 8) \<le> 8"
    by (auto simp: codec_inv_def nat_le_iff)
  have ub: "uint b < 2 ^ 8" using uint_bounded[of b] by simp
  have "push_bit (nat ((lengthBytesRemaining mc - 1) * 8)) (uint b) < 2 ^ (8 + nat ((lengthBytesRemaining mc - 1) * 8))"
    using ub by (simp add: push_bit_eq_mult power_add)
  also have "\<dots> \<le> 2 ^ 16"
    using n by (intro power_increasing) simp_all
  finally have p: "push_bit (nat ((lengthBytesRemaining mc - 1) * 8)) (uint b) < 2 ^ 16" .
  have "msgBytesRemaining mc OR push_bit (nat ((lengthBytesRemaining mc - 1) * 8)) (uint b) < 2 ^ 16"
    using inv p by (intro OR_upper) (simp_all add: codec_inv_def)
  moreover have "0 \<le> msgBytesRemaining mc OR push_bit (nat ((lengthBytesRemaining mc - 1) * 8)) (uint b)"
    using inv by (simp add: codec_inv_def)
  ultimately show ?thesis
    using inv pos by (simp add: codec_inv_def header_byte_def)
qed

lemma Decode_loop_codec_inv:
  "codec_inv mc \<Longrightarrow> codec_inv (fst (snd (Decode_loop h mc data)))"
proof (induction h mc data rule: Decode_loop_cases_induct)
  case (wait h mc)
  then show ?case by (simp add: Decode_loop_wait)
next
  case (header h mc b bs)
  then show ?case by (simp add: Decode_loop_header[of mc h b bs] header_byte_inv)
next
  case (complete h mc data h3 mc3 a)
  have "codec_inv mc3"
    using complete(3) by (auto simp: complete_message_def alloc_def Let_def codec_inv_def split: prod.splits)
  with complete show ?case
    by (auto simp add: Decode_loop_complete[of mc h data] split: prod.splits)
next
  case (payload h mc data readLen h2 mc2)
  show ?case
  proof (cases "msgBytesRemaining mc2 > 0")
    case True
    with payload(1-6,8) show ?thesis
      by (auto simp add: Decode_loop_payload[of mc data h] Let_def codec_inv_def)
  next
    case False
    obtain h3 mc3 a where c: "complete_message h2 mc2 = (h3, mc3, a)"
      by (metis prod_cases3)
    then have "codec_inv mc3"
      by (auto simp: complete_message_def alloc_def Let_def codec_inv_def split: prod.splits)
    with payload(7)[OF False c] have "codec_inv (fst (snd (Decode_loop h3 mc3 (drop (nat readLen) data))))"
      by simp
    with payload(1-6) False c show ?thesis
      by (auto simp add: Decode_loop_payload[of mc data h] Let_def split: prod.splits)
  qed
qed

lemma NewMessageCodec_inv: "NewMessageCodec h = (mc, h') \<Longrightarrow> codec_inv mc"
  by (auto simp: NewMessageCodec_def alloc_def codec_inv_def)

lemma Decode_loop_Encode:
  assumes len: "length m \<le> 65535"
    and buf: "msgBuffer mc < next_addr h" "cells h (msgBuffer mc) = []"
    and fresh: "lengthBytesRemaining mc = 2" "msgBytesRemaining mc = 0"
  shows "Decode_loop h mc (Encode m) =
           (\<lparr>cells = (cells h)(next_addr h := m), next_addr = Suc (next_addr h)\<rparr>, mc, [next_addr h])"
proof -
  let ?v = "of_nat (length m) :: 16 word"
  let ?hi = "ucast (drop_bit 8 ?v) :: byte" and ?lo = "ucast ?v :: byte"
  let ?mc2 = "header_byte (header_byte mc ?hi) ?lo"
  have val: "push_bit 8 (uint ?hi) OR uint ?lo = int (length m)"
    using len by (simp only: header_value uint_len)
  have mc2: "?mc2 = mc\<lparr>lengthBytesRemaining := 0, msgBytesRemaining := int (length m)\<rparr>"
    using fresh val by (simp add: header_byte_def)
  have "Decode_loop h mc (Encode m) = Decode_loop h ?mc2 m"
    using fresh by (simp add: Encode_def put_uint16_def Decode_loop_header header_byte_def)
  also have "\<dots> = Decode_loop h (mc\<lparr>lengthBytesRemaining := 0, msgBytesRemaining := int (length m)\<rparr>) m"
    by (simp only: mc2)
  also have "\<dots> = (\<lparr>cells = (cells h)(next_addr h := m), next_addr = Suc (next_addr h)\<rparr>, mc, [next_addr h])"
  proof (cases m)
    case Nil
    let ?mcP = "mc\<lparr>lengthBytesRemaining := 0, msgBytesRemaining := 0\<rparr>"
    have c: "complete_message h ?mcP =
        (\<lparr>cells = (cells h)(next_addr h := []), next_addr = Suc (next_addr h)\<rparr>, mc, next_addr h)"
      using buf fresh by (simp add: complete_message_eq fun_eq_iff)
    have "Decode_loop h ?mcP [] =
        (\<lparr>cells = (cells h)(next_addr h := []), next_addr = Suc (next_addr h)\<rparr>, mc, [next_addr h])"
      using fresh by (simp add: Decode_loop_complete[of ?mcP h "[]"] c Decode_loop_wait)
    with Nil show ?thesis by simp
  next
    case (Cons b bs)
    let ?mcP = "mc\<lparr>lengthBytesRemaining := 0, msgBytesRemaining := int (length m)\<rparr>"
    let ?h2 = "buffer_write h ?mcP m"
    have c: "complete_message ?h2 (mc\<lparr>lengthBytesRemaining := 0, msgBytesRemaining := 0\<rparr>) =
        (\<lparr>cells = (cells h)(next_addr h := m), next_addr = Suc (next_addr h)\<rparr>, mc, next_addr h)"
      using buf fresh by (simp add: complete_message_eq buffer_write_def store_def fun_eq_iff)
    from Cons have ne: "m \<noteq> []" by simp
    have "Decode_loop h ?mcP m =
        (case complete_message ?h2 (?mcP\<lparr>msgBytesRemaining := 0\<rparr>) of
           (h3, mc3, msgCopy) \<Rightarrow>
             (case Decode_loop h3 mc3 [] of (h4, mc4, calls) \<Rightarrow> (h4, mc4, msgCopy # calls)))"
      using ne by (simp add: Decode_loop_payload[of ?mcP m h] Let_def)
    then show ?thesis
      using fresh by (simp add: c Decode_loop_wait)
  qed
  finally show ?thesis .
qed

lemma Decode_loop_waiting:
  "Decode_loop h mc data = (h', mc', calls) \<Longrightarrow> lengthBytesRemaining mc' > 0 \<or> msgBytesRemaining mc' > 0"
proof (induction h mc data arbitrary: h' mc' calls rule: Decode_loop_cases_induct)
  case (wait h mc)
  then show ?case by (auto simp: Decode_loop_wait)
next
  case (header h mc b bs)
  then show ?case by (simp add: Decode_loop_header[of mc h b bs])
next
  case (complete h mc data h3 mc3 a)
  then show ?case
    by (auto simp add: Decode_loop_complete[of mc h data] split: prod.splits)
next
  case (payload h mc data readLen h2 mc2)
  show ?case
  proof (cases "msgBytesRemaining mc2 > 0")
    case True
    with payload(4,6) have "int (length data) < msgBytesRemaining mc"
      by (simp add: min_def split: if_splits)
    with payload(1-3,8) show ?thesis
      by (auto simp add: Decode_loop_payload[of mc data h] Let_def)
  next
    case False
    obtain h3 mc3 a where c: "complete_message h2 mc2 = (h3, mc3, a)"
      by (metis prod_cases3)
    from payload(1-6,8) False c payload(7)[OF False c] show ?thesis
      by (auto simp add: Decode_loop_payload[of mc data h] Let_def split: prod.splits)
  qed
qed

lemma Decode_chunks_concat:
  assumes "msgBuffer mc < next_addr h" "\<forall>c \<in> set cs. c < next_addr h \<and> c \<noteq> msgBuffer mc"
    and "lengthBytesRemaining mc > 0 \<or> msgBytesRemaining mc > 0"
  shows "Decode_chunks h mc cs = Decode_loop h mc (concat (map (cells h) cs))"
  using assms
proof (induction cs arbitrary: h mc)
  case Nil
  then show ?case by (simp add: Decode_loop_wait)
next
  case (Cons c cs)
  obtain h1 mc1 calls1 where d: "Decode_loop h mc (cells h c) = (h1, mc1, calls1)"
    by (metis prod_cases3)
  from Decode_loop_frame[OF Cons.prems(1), of "cells h c"] d
  have fr: "msgBuffer mc1 = msgBuffer mc" "next_addr h \<le> next_addr h1"
    "\<And>a. a < next_addr h \<Longrightarrow> a \<noteq> msgBuffer mc \<Longrightarrow> cells h1 a = cells h a"
    by (auto simp: frame_def)
  have same: "map (cells h1) cs = map (cells h) cs"
    using Cons.prems(2) fr(3) by simp
  have "Decode_chunks h1 mc1 cs = Decode_loop h1 mc1 (concat (map (cells h1) cs))"
    using Cons.prems fr Decode_loop_waiting[OF d] by (intro Cons.IH) auto
  then show ?case
    by (simp add: Decode_def d same Decode_loop_append then_decode_def split: prod.splits)
qed

lemma get_put_uint16: "get_uint16 (ucast (drop_bit 8 v)) (ucast v) = (v :: 16 word)"
  unfolding get_uint16_def
proof (rule bit_eqI)
  fix n
  show "bit (ucast (ucast v :: byte) OR push_bit 8 (ucast (ucast (drop_bit 8 v) :: byte)) :: 16 word) n = bit v n"
    by (auto simp: bit_simps dest: bit_imp_le_length)
qed

lemma put_uint16_bytes:
  "put_uint16 (of_nat n) = [of_nat (n mod 65536 div 256), of_nat (n mod 256)]"
proof -
  have "(ucast (drop_bit 8 (of_nat n :: 16 word)) :: byte) = of_nat (drop_bit 8 (take_bit 16 n))"
    by (rule bit_eqI) (auto simp: bit_simps)
  moreover have "(ucast (of_nat n :: 16 word) :: byte) = of_nat (take_bit 8 n)"
    by (rule bit_eqI) (auto simp: bit_simps)
  ultimately show ?thesis by (simp add: put_uint16_def take_bit_eq_mod drop_bit_eq_div)
qed

text \<open>
  Claim C10. For every payload, also one longer than 65535 bytes, \<open>Encode\<close> returns
  two bytes, the big-endian encoding of \<open>length data mod 2 ^ 16\<close>, followed by the
  payload unchanged. The 16-bit number that the first two bytes spell is the length
  modulo \<open>2 ^ 16\<close>, so for a payload longer than 65535 bytes it is not the length
  of the payload; the result is a frame all the same, \<open>Encode\<close> has no error result.
\<close>

theorem Encode_length_prefix:
  "Encode data = [of_nat (length data mod 65536 div 256), of_nat (length data mod 256)] @ data \<and>
   unat (get_uint16 (Encode data ! 0) (Encode data ! 1)) = length data mod 65536 \<and>
   (65535 < length data \<longrightarrow> unat (get_uint16 (Encode data ! 0) (Encode data ! 1)) \<noteq> length data)"
proof -
  have "get_uint16 (Encode data ! 0) (Encode data ! 1) = of_nat (length data)"
    by (simp add: Encode_def put_uint16_def get_put_uint16)
  then have "unat (get_uint16 (Encode data ! 0) (Encode data ! 1)) = length data mod 65536"
    by (simp add: unat_of_nat)
  moreover have "65535 < length data \<longrightarrow> length data mod 65536 \<noteq> length data"
    using mod_less_divisor[of 65536 "length data"] by (simp del: mod_less_divisor)
  ultimately show ?thesis
    by (simp add: Encode_def put_uint16_bytes del: One_nat_def)
qed

theorem Encode_length_prefix_witness:
  "unat (get_uint16 (Encode (replicate 65536 0) ! 0) (Encode (replicate 65536 0) ! 1)) = 0 \<and>
   unat (get_uint16 (Encode (replicate 65536 0) ! 0) (Encode (replicate 65536 0) ! 1))
     \<noteq> length (replicate 65536 (0 :: byte))"
  using Encode_length_prefix[of "replicate 65536 0"] by (simp add: get_uint16_def)

text \<open>
  Claim C2. Let \<open>m\<close> be a payload of at most 65535 bytes and let the chunks at the
  addresses \<open>cs\<close> (arrays that exist before decoding starts, none of them the
  decoder's buffer, possibly empty or of one byte each) together spell \<open>Encode m\<close>.
  Feeding them in this order to a decoder that is as \<open>NewMessageCodec\<close> makes it
  calls the callback exactly once. Its argument is a new array (its address was not
  allocated before, so it is neither the decoder's buffer nor a chunk) whose
  contents are \<open>m\<close> when decoding ends; nothing else in the store has changed, and
  the decoder is as it was at the start.
\<close>

theorem Decode_chunks_roundtrip:
  assumes "length m \<le> 65535"
    and "msgBuffer mc < next_addr h" and "cells h (msgBuffer mc) = []"
    and "lengthBytesRemaining mc = 2" and "msgBytesRemaining mc = 0"
    and "\<forall>c \<in> set cs. c < next_addr h \<and> c \<noteq> msgBuffer mc"
    and "concat (map (cells h) cs) = Encode m"
  shows "Decode_chunks h mc cs =
           (\<lparr>cells = (cells h)(next_addr h := m), next_addr = Suc (next_addr h)\<rparr>, mc, [next_addr h])
         \<and> next_addr h \<noteq> msgBuffer mc \<and> next_addr h \<notin> set cs"
proof -
  have "Decode_chunks h mc cs = Decode_loop h mc (Encode m)"
    using assms by (simp add: Decode_chunks_concat)
  also have "\<dots> = (\<lparr>cells = (cells h)(next_addr h := m), next_addr = Suc (next_addr h)\<rparr>, mc, [next_addr h])"
    using assms(1-5) by (rule Decode_loop_Encode)
  finally show ?thesis
    using assms(2,6) by auto
qed

theorem Decode_chunks_roundtrip_witness:
  "Decode_chunks
     \<lparr>cells = (\<lambda>_. [])(1 := [0], 2 := [2, 65], 3 := [66]), next_addr = 4\<rparr>
     \<lparr>msgBuffer = 0, lengthBytesRemaining = 2, msgBytesRemaining = 0\<rparr> [1, 2, 3] =
   (\<lparr>cells = (\<lambda>_. [])(1 := [0], 2 := [2, 65], 3 := [66], 4 := [65, 66]), next_addr = 5\<rparr>,
    \<lparr>msgBuffer = 0, lengthBytesRemaining = 2, msgBytesRemaining = 0\<rparr>, [4])"
  using Decode_chunks_roundtrip[of "[65, 66]"
      "\<lparr>msgBuffer = 0, lengthBytesRemaining = 2, msgBytesRemaining = 0\<rparr>"
      "\<lparr>cells = (\<lambda>_. [])(1 := [0], 2 := [2, 65], 3 := [66]), next_addr = 4\<rparr>" "[1, 2, 3]"]
  by (simp add: Encode_def put_uint16_def)

section \<open>Envelopes and short messages: proofs\<close>

lemma put_get_uint16: "put_uint16 (get_uint16 b0 b1) = [b0, b1]"
proof -
  have "(ucast (drop_bit 8 (ucast b1 OR push_bit 8 (ucast b0) :: 16 word)) :: byte) = b0"
    by (rule bit_eqI) (auto simp: bit_simps dest: bit_imp_le_length)
  moreover have "(ucast (ucast b1 OR push_bit 8 (ucast b0) :: 16 word) :: byte) = b1"
    by (rule bit_eqI) (auto simp: bit_simps dest: bit_imp_le_length)
  ultimately show ?thesis by (simp add: put_uint16_def get_uint16_def)
qed

lemma packEnvelope_layout:
  "length sourceAddr = 4 \<Longrightarrow> packEnvelope sourceAddr p x = sourceAddr @ put_uint16 p @ x"
  by (simp add: packEnvelope_def copy_into_def Let_def put_uint16_def)

lemma unpack_pack:
  "length sourceAddr = 4 \<Longrightarrow> unpackEnvelope (packEnvelope sourceAddr p x) = (sourceAddr, p, x)"
  by (simp add: packEnvelope_layout unpackEnvelope_def put_uint16_def nth_append get_put_uint16)

lemma pack_unpack:
  assumes "6 \<le> length msg"
  shows "packEnvelope (take 4 msg) (get_uint16 (msg ! 4) (msg ! 5)) (drop 6 msg) = msg"
proof -
  have t5: "take 5 msg = take 4 msg @ [msg ! 4]"
    using assms take_Suc_conv_app_nth[of 4 msg] by simp
  have t6: "take 6 msg = take 5 msg @ [msg ! 5]"
    using assms take_Suc_conv_app_nth[of 5 msg] by simp
  have "take 4 msg @ [msg ! 4, msg ! 5] @ drop 6 msg = take 6 msg @ drop 6 msg"
    by (simp add: t5 t6)
  then have "take 4 msg @ [msg ! 4, msg ! 5] @ drop 6 msg = msg"
    by simp
  moreover have "length (take 4 msg) = 4"
    using assms by simp
  ultimately show ?thesis
    by (simp only: packEnvelope_layout put_get_uint16)
qed

text \<open>
  Claim C6. An Envelope built for the IPv4 address \<open>a.b.c.d\<close>, a 16-bit port \<open>p\<close>
  and a payload \<open>x\<close> is the four bytes of the address, the port with its high byte
  first, and the payload; taking it apart gives back \<open>(a.b.c.d, p, x)\<close>. In the
  other direction, taking apart any message of at least 6 bytes and building an
  Envelope from the three parts gives the message back.
\<close>

theorem Envelope_roundtrip:
  "packEnvelope [a, b, c, d] p x = [a, b, c, d] @ put_uint16 p @ x \<and>
   unpackEnvelope (packEnvelope [a, b, c, d] p x) = ([a, b, c, d], p, x) \<and>
   (6 \<le> length msg \<longrightarrow>
      (case unpackEnvelope msg of (sourceAddr, sourcePort, payload) \<Rightarrow>
         length sourceAddr = 4 \<and> packEnvelope sourceAddr sourcePort payload = msg))"
proof (intro conjI impI)
  show "packEnvelope [a, b, c, d] p x = [a, b, c, d] @ put_uint16 p @ x"
    by (rule packEnvelope_layout) simp
  show "unpackEnvelope (packEnvelope [a, b, c, d] p x) = ([a, b, c, d], p, x)"
    by (rule unpack_pack) simp
  assume "6 \<le> length msg"
  then show "case unpackEnvelope msg of (sourceAddr, sourcePort, payload) \<Rightarrow>
         length sourceAddr = 4 \<and> packEnvelope sourceAddr sourcePort payload = msg"
    by (simp add: unpackEnvelope_def pack_unpack)
qed

theorem Envelope_roundtrip_witness:
  "unpackEnvelope [192, 168, 1, 42, 212, 49, 81, 85, 69, 82, 89] = ([192, 168, 1, 42], 54321, [81, 85, 69, 82, 89]) \<and>
   packEnvelope [192, 168, 1, 42] 54321 [81, 85, 69, 82, 89] = [192, 168, 1, 42, 212, 49, 81, 85, 69, 82, 89]"
  using Envelope_roundtrip[of 192 168 1 42 54321 "[81, 85, 69, 82, 89]" "[192, 168, 1, 42, 212, 49, 81, 85, 69, 82, 89]"]
  by (simp add: unpackEnvelope_def get_uint16_def put_uint16_def)

text \<open>
  Claim C7. For a decoded message of fewer than 6 bytes the handler of either relay
  logs a warning and returns: the state of the relay is unchanged and the warning
  is the only thing that happened (no datagram sent, nothing written to the
  tunnel). The handlers return no error; the loop that called them goes on with the
  next message.
\<close>

theorem onReceivedMessage_short:
  "length msg < 6 \<Longrightarrow>
     onReceivedMessage env msg ap = (ap, [Log Warn ''Invalid message: too short'']) \<and>
     onMessageReceivedFromAppProxy env msg tp = (tp, [Log Warn ''Invalid message: too short'']) \<and>
     deliver_all (onReceivedMessage env) (msg # ms) ap =
       (case deliver_all (onReceivedMessage env) ms ap of
          (ap', evs) \<Rightarrow> (ap', Log Warn ''Invalid message: too short'' # evs)) \<and>
     deliver_all (onMessageReceivedFromAppProxy env) (msg # ms) tp =
       (case deliver_all (onMessageReceivedFromAppProxy env) ms tp of
          (tp', evs) \<Rightarrow> (tp', Log Warn ''Invalid message: too short'' # evs))"
  by (simp add: onReceivedMessage_def onMessageReceivedFromAppProxy_def split: prod.splits)

theorem onReceivedMessage_short_witness:
  "onReceivedMessage quiet_env [1, 2, 3] NewAppProxy = (NewAppProxy, [Log Warn ''Invalid message: too short'']) \<and>
   onMessageReceivedFromAppProxy quiet_env [1, 2, 3] started_TunerProxy =
     (started_TunerProxy, [Log Warn ''Invalid message: too short''])"
  using onReceivedMessage_short[where msg="[1, 2, 3]" and env=quiet_env and ap=NewAppProxy
      and tp=started_TunerProxy]
  by simp

section \<open>The App-Side Relay: what the code does\<close>

text \<open>
  First what holds for every query: the query is written to one socket and the
  replies are read from the next one; a datagram that reaches that second socket
  is wrapped with the origin of the query and written to the held connection; with
  no datagram there nothing is written; with no connection held \<^verbatim>\<open>reply\<close> does
  nothing.
\<close>

lemma tunnel_writes_append: "tunnel_writes (xs @ ys) = tunnel_writes xs @ tunnel_writes ys"
  by (induction xs rule: tunnel_writes.induct) auto

lemma written_sockets_append: "written_sockets (xs @ ys) = written_sockets xs @ written_sockets ys"
  by (induction xs rule: written_sockets.induct) auto

lemma read_sockets_append: "read_sockets (xs @ ys) = read_sockets xs @ read_sockets ys"
  by (induction xs rule: read_sockets.induct) auto

lemma reply_sockets:
  "written_sockets (snd (reply env a p d ap)) = [] \<and> read_sockets (snd (reply env a p d ap)) = []"
  by (simp add: reply_def Let_def split: option.splits)

lemma collect_replies_sockets:
  "written_sockets (snd (collect_replies (reply env a p) l ds ap)) = [] \<and>
   read_sockets (snd (collect_replies (reply env a p) l ds ap)) = replicate (length ds) l"
proof (induction ds arbitrary: ap)
  case Nil
  show ?case by simp
next
  case (Cons d ds)
  show ?case
    using Cons.IH reply_sockets[of env a p]
    by (simp add: Let_def split_beta written_sockets_append read_sockets_append)
qed

lemma queryTuner_sockets:
  "set (written_sockets (snd (queryTuner env q (reply env a p) ap))) \<subseteq> {ap_next_sock ap} \<and>
   set (read_sockets (snd (queryTuner env q (reply env a p) ap))) \<subseteq> {Suc (ap_next_sock ap)}"
  using collect_replies_sockets[of env a p "Suc (ap_next_sock ap)"]
  by (auto simp add: queryTuner_def Let_def split_beta written_sockets_append read_sockets_append)

lemma collect_replies_one:
  assumes "ap_tcpTransport ap = Some c" "\<not> tcp_write_fails env c" "d \<noteq> []" "length d \<le> 4096"
  shows "tunnel_writes (snd (collect_replies (reply env a p) l [d] ap)) = [(c, Encode (packEnvelope a p d))]"
  using assms by (simp add: UDPReadBufferSize_def reply_def Let_def)

lemma onReceivedMessage_relays_listener:
  assumes "6 \<le> length msg" "ap_tcpTransport ap = Some c" "\<not> tcp_write_fails env c"
    and "\<not> resolve_fails env ''255.255.255.255:65001''" "\<not> resolve_fails env '':0''"
    and "\<not> udp_dial_fails env (ap_next_sock ap)" "\<not> udp_write_fails env (ap_next_sock ap)"
    and "\<not> udp_listen_fails env (Suc (ap_next_sock ap))"
    and "arrivals env (Suc (ap_next_sock ap)) = [d]" "d \<noteq> []" "length d \<le> 4096"
  shows "tunnel_writes (snd (onReceivedMessage env msg ap)) =
           [(c, Encode (packEnvelope (take 4 msg) (get_uint16 (msg ! 4) (msg ! 5)) d))]"
  using assms
  by (simp add: onReceivedMessage_def unpackEnvelope_def queryTuner_def Let_def split_beta
      tunnel_writes_append UDPReadBufferSize_def reply_def)

lemma onReceivedMessage_silent:
  assumes "arrivals env (Suc (ap_next_sock ap)) = []"
  shows "tunnel_writes (snd (onReceivedMessage env msg ap)) = []"
  using assms
  by (simp add: onReceivedMessage_def unpackEnvelope_def queryTuner_def Let_def split_beta
      tunnel_writes_append)

lemma reply_dropped:
  "ap_tcpTransport ap = None \<Longrightarrow> reply env a p d ap = (ap, [Lock tcpMutex, SlotRead, Unlock tcpMutex])"
  by (simp add: reply_def)

text \<open>
  Claim C1 says that the App-Side Relay waits for the responses on the socket that
  sent the query. The code does not. Here the query of an Envelope is written to
  socket 0, the socket \<^verbatim>\<open>net.DialUDP\<close> made, and the device's answer arrives at that
  socket; \<^verbatim>\<open>queryTuner\<close> waits on socket 1, the socket \<^verbatim>\<open>net.ListenUDP\<close> made: the only
  read is a read of socket 1 that ends in the timeout, the answer is never read and
  the callback is never called.
\<close>

theorem queryTuner_reads_other_socket:
  "queryTuner (answers_at 0 ANSWER) QUERY (reply (answers_at 0 ANSWER) [192, 168, 1, 42] 54321)
     (NewAppProxy\<lparr>ap_tcpTransport := Some 7\<rparr>) =
   (NewAppProxy\<lparr>ap_tcpTransport := Some 7, ap_next_sock := 2\<rparr>,
    [UdpDial 0 [255, 255, 255, 255] 65001, UdpWrite 0 QUERY, UdpListen 1,
     UdpRead 1 (Inl (OpError ''i/o timeout'' True)), UdpClose 1, UdpClose 0])"
  by (simp add: queryTuner_def answers_at_def quiet_env_def NewAppProxy_def broadcast_addr_def
      HDHomeRunDiscoveryUDPPort_def)

text \<open>
  Claim C4 says that a device's "ANSWER" to the Envelope (192.168.1.42, 54321,
  "QUERY") is relayed as exactly one reply Envelope. In the code it is not. The
  relay holds connection 7 and receives the Envelope; when the "ANSWER" arrives at
  the socket that wrote the query (socket 0), nothing is written to the tunnel.
  Only a datagram that arrives at the other socket (socket 1) is relayed, as one
  frame holding the Envelope (192.168.1.42, 54321, "ANSWER").
\<close>

theorem onReceivedMessage_answer_lost:
  "tunnel_writes (snd (onReceivedMessage (answers_at 0 ANSWER) ([192, 168, 1, 42, 212, 49] @ QUERY)
      (NewAppProxy\<lparr>ap_tcpTransport := Some 7\<rparr>))) = [] \<and>
   tunnel_writes (snd (onReceivedMessage (answers_at 1 ANSWER) ([192, 168, 1, 42, 212, 49] @ QUERY)
      (NewAppProxy\<lparr>ap_tcpTransport := Some 7\<rparr>))) =
     [(7, Encode (packEnvelope [192, 168, 1, 42] 54321 ANSWER))]"
  by (simp add: onReceivedMessage_def unpackEnvelope_def get_uint16_def queryTuner_def answers_at_def
      quiet_env_def NewAppProxy_def QUERY_def ANSWER_def reply_def UDPReadBufferSize_def Let_def)

text \<open>
  Claim C3 says that no failure on an abandoned connection clears the connection
  that is held. In the code it does. Connection 1 is accepted, then connection 2,
  which takes the slot. A read error on connection 1, the abandoned one, sets the
  slot to \<^verbatim>\<open>nil\<close>, although connection 2 had no error and its goroutine is still
  running.
\<close>

theorem old_connection_clears_slot:
  "ap_tcpTransport (fst (app_run quiet_env [Accept 1, Accept 2] NewAppProxy)) = Some 2 \<and>
   ap_tcpTransport (fst (app_run quiet_env [Accept 1, Accept 2, ConnRead 1 (Inl (PlainError ''EOF''))]
      NewAppProxy)) = None \<and>
   map fst (ap_handlers (fst (app_run quiet_env [Accept 1, Accept 2, ConnRead 1 (Inl (PlainError ''EOF''))]
      NewAppProxy))) = [2]"
  by (simp add: handleTunerProxyConnection_start_def handleTunerProxyConnection_read_def
      NewAppProxy_def NewMessageCodec_def alloc_def Let_def split: prod.splits)

text \<open>
  Claim C5 says that a dial failure for an unresolvable host name ends the process.
  In the code it does not. The relay is disconnected and the timer ticks;
  \<^verbatim>\<open>net.Dial\<close> fails because the host name does not resolve, with a
  \<^verbatim>\<open>*net.OpError\<close> around a \<^verbatim>\<open>*net.DNSError\<close>. The text of the inner error is
  "lookup nohost.invalid: no such host", which is not the string "no such host"
  the code compares it with: the relay logs the failure and stays disconnected,
  \<^verbatim>\<open>os.Exit\<close> is not called. Only an inner error whose whole text is "no such host"
  ends the process.
\<close>

theorem unresolvable_host_retried:
  "ticker_tick ''nohost.invalid'' (Inl (OpError (DNSError_text ''nohost.invalid'' []) False))
     started_TunerProxy =
   (started_TunerProxy,
    [Lock tcpMutex, SlotRead, Unlock tcpMutex, Log Info ''Connecting to app proxy'',
     TcpDial ''nohost.invalid'', Log Error ''Failed to connect to app proxy'']) \<and>
   ticker_tick ''nohost.invalid'' (Inl (OpError ''no such host'' False)) started_TunerProxy =
   (started_TunerProxy\<lparr>tp_exited := Some 1\<rparr>,
    [Lock tcpMutex, SlotRead, Unlock tcpMutex, Log Info ''Connecting to app proxy'',
     TcpDial ''nohost.invalid'', Log Error ''Failed to connect to app proxy'', Log Error ''Unknown host'',
     Exit 1])"
  by (simp add: ticker_tick_def getTCPTransport_def connectToAppProxy_def started_TunerProxy_def
      DNSError_text_def)

section \<open>The Client-Side Relay: datagrams captured while disconnected\<close>

lemma same_capture_refl: "same_capture cl cl"
  by (simp add: same_capture_def)

lemma handleUDPBroadcasts_read_same:
  assumes "same_capture cl cl'"
  shows "snd (handleUDPBroadcasts_read res tp cl) = snd (handleUDPBroadcasts_read res tp cl') \<and>
         same_capture (fst (handleUDPBroadcasts_read res tp cl)) (fst (handleUDPBroadcasts_read res tp cl'))"
  using assms
  by (auto simp add: handleUDPBroadcasts_read_def same_capture_def pending_len_def Let_def
      split: option.splits sum.splits prod.splits)

lemma handleUDPBroadcasts_step_same:
  assumes "same_capture cl cl'"
  shows "snd (handleUDPBroadcasts_step env tp cl) = snd (handleUDPBroadcasts_step env tp cl') \<and>
         fst (fst (handleUDPBroadcasts_step env tp cl)) = fst (fst (handleUDPBroadcasts_step env tp cl')) \<and>
         same_capture (snd (fst (handleUDPBroadcasts_step env tp cl)))
           (snd (fst (handleUDPBroadcasts_step env tp cl')))"
proof -
  from assms have at: "cap_at cl' = cap_at cl"
    and buf: "take (pending_len cl) (cap_buf cl') = take (pending_len cl) (cap_buf cl)"
    by (simp_all add: same_capture_def)
  show ?thesis
  proof (cases "cap_at cl")
    case Reading
    with at show ?thesis
      by (simp add: handleUDPBroadcasts_step_def same_capture_def pending_len_def)
  next
    case (Captured ip port n)
    with at buf show ?thesis
      by (simp add: handleUDPBroadcasts_step_def same_capture_def pending_len_def getTCPTransport_def)
  next
    case (Checked ip port n)
    with at buf show ?thesis
      by (simp add: handleUDPBroadcasts_step_def same_capture_def pending_len_def getTCPTransport_def
          Let_def split: option.splits)
  next
    case (Sending c encodedMsg)
    with at show ?thesis
      by (simp add: handleUDPBroadcasts_step_def same_capture_def pending_len_def)
  next
    case WriteFailed
    with at show ?thesis
      by (simp add: handleUDPBroadcasts_step_def same_capture_def pending_len_def split: prod.splits)
  qed
qed

lemma tuner_step_same:
  assumes "same_capture cl cl'"
  shows "snd (tuner_step env host i (tp, cl)) = snd (tuner_step env host i (tp, cl')) \<and>
         fst (fst (tuner_step env host i (tp, cl))) = fst (fst (tuner_step env host i (tp, cl'))) \<and>
         same_capture (snd (fst (tuner_step env host i (tp, cl))))
           (snd (fst (tuner_step env host i (tp, cl'))))"
proof (cases i)
  case (Tick dial)
  with assms show ?thesis by (simp add: split_beta)
next
  case (TunnelRead conn res)
  with assms show ?thesis by (simp add: split_beta)
next
  case (CaptureRead res)
  from assms have "cap_at cl = cap_at cl'" by (simp add: same_capture_def)
  with CaptureRead assms handleUDPBroadcasts_read_same[OF assms, of res tp] show ?thesis
    by (simp add: split_beta)
next
  case CaptureStep
  with handleUDPBroadcasts_step_same[OF assms, of env tp] show ?thesis by simp
qed

lemma tuner_run_same:
  assumes "same_capture cl cl'"
  shows "snd (tuner_run env host ins (tp, cl)) = snd (tuner_run env host ins (tp, cl')) \<and>
         fst (fst (tuner_run env host ins (tp, cl))) = fst (fst (tuner_run env host ins (tp, cl'))) \<and>
         same_capture (snd (fst (tuner_run env host ins (tp, cl))))
           (snd (fst (tuner_run env host ins (tp, cl'))))"
  using assms
proof (induction ins arbitrary: tp cl cl')
  case Nil
  then show ?case by simp
next
  case (Cons i ins)
  show ?case
  proof (cases "tp_exited tp = None")
    case False
    with Cons.prems show ?thesis by simp
  next
    case True
    obtain tp1 cl1 ev1 where s: "tuner_step env host i (tp, cl) = ((tp1, cl1), ev1)"
      by (metis prod.exhaust)
    obtain tp1' cl1' ev1' where s': "tuner_step env host i (tp, cl') = ((tp1', cl1'), ev1')"
      by (metis prod.exhaust)
    from tuner_step_same[OF Cons.prems, of env host i tp] s s'
    have eq: "ev1' = ev1" "tp1' = tp1" and same: "same_capture cl1 cl1'"
      by simp_all
    from Cons.IH[OF same, of tp1] True s s' eq show ?thesis
      by (simp add: split_beta)
  qed
qed

text \<open>
  Claim C8 as stated fails. The relay is disconnected when the capture loop reads
  the datagram "QUERY" from 192.168.1.42:54321. Before the loop comes to its check
  of the slot the timer ticks and the dial succeeds with connection 7. The check
  then finds a connection, and the datagram that was read while the relay was
  disconnected is written to the tunnel.
\<close>

theorem datagram_read_while_disconnected_is_written:
  "tp_tcpTransport (fst (fst (tuner_run quiet_env ''app''
      [CaptureRead (Inr ([192, 168, 1, 42], 54321, QUERY))]
      (started_TunerProxy, started_capture_loop)))) = None \<and>
   tunnel_writes (snd (tuner_run quiet_env ''app''
      [CaptureRead (Inr ([192, 168, 1, 42], 54321, QUERY)), Tick (Inr 7),
       CaptureStep, CaptureStep, CaptureStep]
      (started_TunerProxy, started_capture_loop))) =
   [(7, Encode (packEnvelope [192, 168, 1, 42] 54321 QUERY))]"
  by (simp add: started_TunerProxy_def started_capture_loop_def quiet_env_def
      handleUDPBroadcasts_read_def handleUDPBroadcasts_step_def getTCPTransport_def
      ticker_tick_def connectToAppProxy_def setTCPTransport_def NewMessageCodec_def alloc_def
      Let_def To4_def QUERY_def tunnel_writes_append split: prod.splits)

text \<open>
  Claim C8, amended. What decides is the state the capture loop finds at its check
  of the slot, the statement after the read. Let the relay be running, let the
  loop hold a datagram and stand at that check, and let the slot be \<^verbatim>\<open>nil\<close>. Then
  the check discards the datagram at once: the loop goes back to reading, nothing
  is written to the tunnel and nothing else changes. Whatever happens afterwards
  (ticks, connections, reads, further datagrams), the relay does exactly what a
  relay does that stands at the read with any contents \<open>b\<close> of its buffer, for
  instance those from before the datagram was read: the same events, and the same
  state in the end. Nothing of the datagram is written to the tunnel after a later
  connection.
\<close>

theorem discarded_at_check:
  assumes "cap_at cl = Captured ip port n" and "tp_tcpTransport tp = None" and "tp_exited tp = None"
  shows "handleUDPBroadcasts_step env tp cl =
           ((tp, cl\<lparr>cap_at := Reading\<rparr>), [Lock tcpMutex, SlotRead, Unlock tcpMutex]) \<and>
         snd (tuner_run env host (CaptureStep # ins) (tp, cl)) =
           [Lock tcpMutex, SlotRead, Unlock tcpMutex] @
           snd (tuner_run env host ins (tp, \<lparr>cap_buf = b, cap_at = Reading\<rparr>)) \<and>
         fst (fst (tuner_run env host (CaptureStep # ins) (tp, cl))) =
           fst (fst (tuner_run env host ins (tp, \<lparr>cap_buf = b, cap_at = Reading\<rparr>))) \<and>
         cap_at (snd (fst (tuner_run env host (CaptureStep # ins) (tp, cl)))) =
           cap_at (snd (fst (tuner_run env host ins (tp, \<lparr>cap_buf = b, cap_at = Reading\<rparr>))))"
proof -
  have step: "handleUDPBroadcasts_step env tp cl =
      ((tp, cl\<lparr>cap_at := Reading\<rparr>), [Lock tcpMutex, SlotRead, Unlock tcpMutex])"
    using assms(1,2) by (simp add: handleUDPBroadcasts_step_def getTCPTransport_def)
  have "same_capture (cl\<lparr>cap_at := Reading\<rparr>) \<lparr>cap_buf = b, cap_at = Reading\<rparr>"
    by (simp add: same_capture_def pending_len_def)
  from tuner_run_same[OF this, of env host ins tp]
  have "snd (tuner_run env host ins (tp, cl\<lparr>cap_at := Reading\<rparr>)) =
          snd (tuner_run env host ins (tp, \<lparr>cap_buf = b, cap_at = Reading\<rparr>))"
    and "fst (fst (tuner_run env host ins (tp, cl\<lparr>cap_at := Reading\<rparr>))) =
          fst (fst (tuner_run env host ins (tp, \<lparr>cap_buf = b, cap_at = Reading\<rparr>)))"
    and "cap_at (snd (fst (tuner_run env host ins (tp, cl\<lparr>cap_at := Reading\<rparr>)))) =
          cap_at (snd (fst (tuner_run env host ins (tp, \<lparr>cap_buf = b, cap_at = Reading\<rparr>))))"
    by (simp_all add: same_capture_def)
  with step assms(3) show ?thesis
    by (simp add: split_beta)
qed

theorem discarded_at_check_witness:
  "tunnel_writes (snd (tuner_run quiet_env ''app''
      [CaptureStep, Tick (Inr 7), CaptureRead (Inr ([192, 168, 1, 42], 54321, ANSWER)),
       CaptureStep, CaptureStep, CaptureStep]
      (started_TunerProxy,
       \<lparr>cap_buf = QUERY @ replicate 4091 0, cap_at = Captured [192, 168, 1, 42] 54321 5\<rparr>))) =
   [(7, Encode (packEnvelope [192, 168, 1, 42] 54321 ANSWER))]"
  using discarded_at_check[where tp=started_TunerProxy and env=quiet_env and host="''app''"
      and cl="\<lparr>cap_buf = QUERY @ replicate 4091 0, cap_at = Captured [192, 168, 1, 42] 54321 5\<rparr>"
      and ip="[192, 168, 1, 42]" and port=54321 and n=5 and b="replicate 4096 0"
      and ins="[Tick (Inr 7), CaptureRead (Inr ([192, 168, 1, 42], 54321, ANSWER)),
                CaptureStep, CaptureStep, CaptureStep]"]
  by (simp add: started_TunerProxy_def quiet_env_def
      handleUDPBroadcasts_read_def handleUDPBroadcasts_step_def getTCPTransport_def
      ticker_tick_def connectToAppProxy_def setTCPTransport_def NewMessageCodec_def alloc_def
      Let_def To4_def QUERY_def ANSWER_def tunnel_writes_append split: prod.splits)

section \<open>The scope of the mutex\<close>

text \<open>
  What the other functions that touch the slot do, in both relays: each reads or
  writes the slot only while it holds the mutex, and nothing that can block (a
  dial, a read, a write) happens while it holds it; \<^verbatim>\<open>closeTCP\<close> closes the
  connection while it holds it. In particular the writer of the Client-Side Relay,
  \<^verbatim>\<open>handleUDPBroadcasts\<close>, reads the slot under the mutex and writes to the tunnel
  with the mutex free. \<^verbatim>\<open>reply\<close> too touches the slot only under the mutex.
\<close>

lemma accessors_lock_scope:
  "(slot_guarded False (snd (getTCPTransport tp)) \<and> lock_scoped False (snd (getTCPTransport tp))) \<and>
   (slot_guarded False (snd (setTCPTransport conn tp)) \<and>
    lock_scoped False (snd (setTCPTransport conn tp))) \<and>
   (slot_guarded False (snd (closeTCP tp)) \<and> lock_scoped False (snd (closeTCP tp))) \<and>
   (slot_guarded False (snd (ticker_tick host dial tp)) \<and>
    lock_scoped False (snd (ticker_tick host dial tp))) \<and>
   (slot_guarded False (snd (handleUDPBroadcasts_step env tp cl)) \<and>
    lock_scoped False (snd (handleUDPBroadcasts_step env tp cl))) \<and>
   (slot_guarded False (snd (tunnel_read env conn (Inl err) tp)) \<and>
    lock_scoped False (snd (tunnel_read env conn (Inl err) tp))) \<and>
   (slot_guarded False (snd (handleTunerProxyConnection_start conn ap)) \<and>
    lock_scoped False (snd (handleTunerProxyConnection_start conn ap))) \<and>
   (slot_guarded False (snd (handleTunerProxyConnection_read env conn (Inl err) ap)) \<and>
    lock_scoped False (snd (handleTunerProxyConnection_read env conn (Inl err) ap))) \<and>
   slot_guarded False (snd (reply env sourceAddr sourcePort replyData ap))"
proof (intro conjI)
  show "slot_guarded False (snd (getTCPTransport tp))" "lock_scoped False (snd (getTCPTransport tp))"
    by (simp_all add: getTCPTransport_def)
  show "slot_guarded False (snd (setTCPTransport conn tp))"
    "lock_scoped False (snd (setTCPTransport conn tp))"
    by (simp_all add: setTCPTransport_def)
  show "slot_guarded False (snd (closeTCP tp))" "lock_scoped False (snd (closeTCP tp))"
    by (simp_all add: closeTCP_def split: option.splits)
  show "slot_guarded False (snd (ticker_tick host dial tp))"
    "lock_scoped False (snd (ticker_tick host dial tp))"
    by (simp_all add: ticker_tick_def getTCPTransport_def connectToAppProxy_def setTCPTransport_def
        Let_def split: sum.splits prod.splits go_error.splits option.splits)
  show "slot_guarded False (snd (handleUDPBroadcasts_step env tp cl))"
    "lock_scoped False (snd (handleUDPBroadcasts_step env tp cl))"
    by (simp_all add: handleUDPBroadcasts_step_def getTCPTransport_def closeTCP_def Let_def
        split: option.splits capture_pc.splits prod.splits)
  show "slot_guarded False (snd (tunnel_read env conn (Inl err) tp))"
    "lock_scoped False (snd (tunnel_read env conn (Inl err) tp))"
    by (simp_all add: tunnel_read_def closeTCP_def split: option.splits prod.splits)
  show "slot_guarded False (snd (handleTunerProxyConnection_start conn ap))"
    "lock_scoped False (snd (handleTunerProxyConnection_start conn ap))"
    by (simp_all add: handleTunerProxyConnection_start_def Let_def split: prod.splits)
  show "slot_guarded False (snd (handleTunerProxyConnection_read env conn (Inl err) ap))"
    "lock_scoped False (snd (handleTunerProxyConnection_read env conn (Inl err) ap))"
    by (simp_all add: handleTunerProxyConnection_read_def split: option.splits prod.splits)
  show "slot_guarded False (snd (reply env sourceAddr sourcePort replyData ap))"
    by (simp add: reply_def Let_def split: option.splits)
qed

lemma reply_trace:
  "ap_tcpTransport ap = Some c \<Longrightarrow>
     snd (reply env sourceAddr sourcePort replyData ap) =
       [Lock tcpMutex, SlotRead, TcpWrite c (Encode (packEnvelope sourceAddr sourcePort replyData))] @
       (if tcp_write_fails env c then [Log Error ''Error sending reply'', SlotWrite None] else []) @
       [Unlock tcpMutex]"
  by (simp add: reply_def Let_def)

text \<open>
  Claim C9 says that no access to the slot holds the mutex across an operation that
  can block, such as a tunnel write. \<^verbatim>\<open>reply\<close> of the App-Side Relay does: called
  while connection 7 is held, it takes the mutex, writes the reply to the tunnel and
  only then gives the mutex back, so the write happens with the mutex held.
\<close>

theorem reply_writes_under_lock:
  "snd (reply quiet_env [192, 168, 1, 42] 54321 ANSWER (NewAppProxy\<lparr>ap_tcpTransport := Some 7\<rparr>)) =
     [Lock tcpMutex, SlotRead, TcpWrite 7 (Encode (packEnvelope [192, 168, 1, 42] 54321 ANSWER)),
      Unlock tcpMutex] \<and>
   \<not> lock_scoped False
       (snd (reply quiet_env [192, 168, 1, 42] 54321 ANSWER (NewAppProxy\<lparr>ap_tcpTransport := Some 7\<rparr>)))"
  by (simp add: reply_def quiet_env_def NewAppProxy_def Let_def)

end
